theory Spec2Isabelle
  imports Complex_Main "HOL-Library.AList" "HOL-Library.Multiset"
begin

text \<open>
  A model of the two cores of the PLEX runtime sources. The first is the sparse engine
  that ranks documents with BM25, in its three variants: the class of \<open>plex-demo.js\<close>,
  which tokenizes a document again for every score; the class of
  \<open>plex-vs-dense-demo.mjs\<close>, which caches the term frequencies of every document and
  has \<open>search\<close>; and the class of the benchmark script, with \<open>scoreDoc\<close> and the
  ranking loop. The second is \<open>PlexRuntime\<close> of \<open>plex.js\<close>, which maps a function
  over a dataset in pulses under a bound on the units in flight.
\<close>
section \<open>JavaScript numbers\<close>

text \<open>
  The engines compute with JavaScript numbers. A number is modelled as an exact real,
  or one of the three special values that the arithmetic of the source can produce:
  \<open>Infinity\<close>, \<open>-Infinity\<close> and \<open>NaN\<close>. Rounding and overflow of finite values are
  not modelled here, and the two zeros are not distinguished: every zero that the
  engines divide by is the sum or quotient of non-negative counts, so a division of a
  non-zero number by zero takes its sign from the dividend. The two scorers whose
  results are compared bit by bit are given a second time further down, with every
  operation rounded to a double.
\<close>

datatype jsnum = Fin real | PInf | NInf | NaN

fun js_neg :: "jsnum \<Rightarrow> jsnum" where
  "js_neg (Fin a) = Fin (- a)"
| "js_neg PInf = NInf"
| "js_neg NInf = PInf"
| "js_neg NaN = NaN"

fun js_add :: "jsnum \<Rightarrow> jsnum \<Rightarrow> jsnum" where
  "js_add (Fin a) (Fin b) = Fin (a + b)"
| "js_add NaN y = NaN"
| "js_add x NaN = NaN"
| "js_add PInf NInf = NaN"
| "js_add NInf PInf = NaN"
| "js_add PInf y = PInf"
| "js_add x PInf = PInf"
| "js_add NInf y = NInf"
| "js_add x NInf = NInf"

definition js_sub :: "jsnum \<Rightarrow> jsnum \<Rightarrow> jsnum" where
  "js_sub x y = js_add x (js_neg y)"

fun js_negative :: "jsnum \<Rightarrow> bool" where
  "js_negative (Fin a) = (a < 0)"
| "js_negative NInf = True"
| "js_negative x = False"

fun js_mul :: "jsnum \<Rightarrow> jsnum \<Rightarrow> jsnum" where
  "js_mul (Fin a) (Fin b) = Fin (a * b)"
| "js_mul NaN y = NaN"
| "js_mul x NaN = NaN"
| "js_mul x y =
     (if x = Fin 0 \<or> y = Fin 0 then NaN
      else if js_negative x = js_negative y then PInf else NInf)"

fun js_div :: "jsnum \<Rightarrow> jsnum \<Rightarrow> jsnum" where
  "js_div (Fin a) (Fin b) =
     (if b \<noteq> 0 then Fin (a / b)
      else if a = 0 then NaN else if 0 < a then PInf else NInf)"
| "js_div NaN y = NaN"
| "js_div x NaN = NaN"
| "js_div (Fin a) y = Fin 0"
| "js_div x (Fin b) = (if js_negative x = (b < 0) then PInf else NInf)"
| "js_div x y = NaN"

text \<open>\<open>Math.log\<close>.\<close>

fun js_log :: "jsnum \<Rightarrow> jsnum" where
  "js_log (Fin a) = (if a < 0 then NaN else if a = 0 then NInf else Fin (ln a))"
| "js_log PInf = PInf"
| "js_log NInf = NaN"
| "js_log NaN = NaN"

text \<open>The comparison \<open>x > y\<close>; it is false as soon as one side is \<open>NaN\<close>.\<close>

fun js_gt :: "jsnum \<Rightarrow> jsnum \<Rightarrow> bool" where
  "js_gt (Fin a) (Fin b) = (b < a)"
| "js_gt NaN y = False"
| "js_gt x NaN = False"
| "js_gt PInf y = (y \<noteq> PInf)"
| "js_gt x NInf = (x \<noteq> NInf)"
| "js_gt x y = False"

text \<open>Truthiness of a number, as \<open>||\<close> and \<open>!\<close> test it: \<open>0\<close> and \<open>NaN\<close> are falsy.\<close>

definition js_truthy :: "jsnum \<Rightarrow> bool" where
  "js_truthy x = (x \<noteq> Fin 0 \<and> x \<noteq> NaN)"

text \<open>\<open>x || d\<close> on numbers.\<close>

definition js_or :: "jsnum \<Rightarrow> jsnum \<Rightarrow> jsnum" where
  "js_or x d = (if js_truthy x then x else d)"

definition js_of_nat :: "nat \<Rightarrow> jsnum" where
  "js_of_nat n = Fin (real n)"


section \<open>JavaScript maps and sets\<close>

text \<open>
  A \<open>Map\<close> keeps its entries in insertion order: it is an association list with
  distinct keys, \<open>set\<close> is \<^const>\<open>AList.update\<close> (in place for a known key, at the end
  for a new one) and \<open>get\<close> is \<^const>\<open>map_of\<close>. A \<open>Set\<close> built from an array keeps
  the first occurrence of every element.
\<close>

text \<open>\<open>m.get(k) || 0\<close> on a map of counts.\<close>

definition get_or0 :: "('k \<times> nat) list \<Rightarrow> 'k \<Rightarrow> nat" where
  "get_or0 m k = (case map_of m k of None \<Rightarrow> 0 | Some c \<Rightarrow> c)"

text \<open>\<open>m.set(t, (m.get(t) || 0) + 1)\<close>.\<close>

definition bump :: "('k \<times> nat) list \<Rightarrow> 'k \<Rightarrow> ('k \<times> nat) list" where
  "bump m t = AList.update t (get_or0 m t + 1) m"

definition js_Set :: "'a list \<Rightarrow> 'a list" where
  "js_Set xs = foldl (\<lambda>s x. if x \<in> set s then s else s @ [x]) [] xs"

text \<open>\<open>tokens.forEach(t => freq.set(t, (freq.get(t) || 0) + 1))\<close> on a new map.\<close>

definition term_freq :: "string list \<Rightarrow> (string \<times> nat) list" where
  "term_freq tokens = foldl bump [] tokens"


section \<open>Tokenizer\<close>

text \<open>
  A document is an object read at four keys; it is the list of its own properties, and
  a missing key, like an empty value, reads as the empty string. Field values are
  strings, and strings are ASCII text.
\<close>

type_synonym document = "(string \<times> string) list"

definition is_space :: "char \<Rightarrow> bool" where
  "is_space c = (of_char c \<in> {9, 10, 11, 12, 13, 32 :: nat})"

definition to_lower :: "char \<Rightarrow> char" where
  "to_lower c =
     (if 65 \<le> (of_char c :: nat) \<and> (of_char c :: nat) \<le> 90
      then char_of (of_char c + 32 :: nat) else c)"

definition toLowerCase :: "string \<Rightarrow> string" where
  "toLowerCase s = map to_lower s"

text \<open>\<open>.split(/\s+/).filter(Boolean)\<close>: the maximal runs of characters that are not
  white space, in order.\<close>

fun split_ws :: "string \<Rightarrow> string \<Rightarrow> string list" where
  "split_ws cur [] = (if cur = [] then [] else [rev cur])"
| "split_ws cur (c # cs) =
     (if is_space c then (if cur = [] then [] else [rev cur]) @ split_ws [] cs
      else split_ws (c # cur) cs)"

text \<open>\<open>.join(" ")\<close>.\<close>

fun join_sp :: "string list \<Rightarrow> string" where
  "join_sp [] = []"
| "join_sp [s] = s"
| "join_sp (s # t # ss) = s @ '' '' @ join_sp (t # ss)"

definition field :: "document \<Rightarrow> string \<Rightarrow> string" where
  "field item f = (case map_of item f of None \<Rightarrow> [] | Some v \<Rightarrow> v)"

definition tokenize :: "document \<Rightarrow> string list" where
  "tokenize item =
     split_ws [] (join_sp (map (\<lambda>f. toLowerCase (field item f))
                               [''city'', ''state'', ''zip'', ''_id'']))"


section \<open>Sparse engine: corpus statistics\<close>

text \<open>
  The engine of \<open>plex-demo.js\<close>. Its fields are those of the class; \<open>k1\<close> and \<open>b\<close>
  are the constants \<open>1.2\<close> and \<open>0.75\<close>, never assigned again.
\<close>

record SparseEngine =
  docs :: "document list"
  idf :: "(string \<times> jsnum) list"
  avgLen :: jsnum
  k1 :: real
  b :: real

definition SparseEngine_new :: SparseEngine where
  "SparseEngine_new = \<lparr>docs = [], idf = [], avgLen = Fin 0, k1 = 12 / 10, b = 75 / 100\<rparr>"

text \<open>One round of \<open>docs.forEach\<close> in \<open>init\<close>: the pair is \<open>(df, totalLen)\<close>.\<close>

definition init_doc :: "(string \<times> nat) list \<times> nat \<Rightarrow> document \<Rightarrow> (string \<times> nat) list \<times> nat" where
  "init_doc acc doc =
     (let tokens = tokenize doc
      in (foldl bump (fst acc) (js_Set tokens), snd acc + length tokens))"

text \<open>\<open>Math.log((docs.length - count + 0.5) / (count + 0.5) + 1)\<close>.\<close>

definition idf_value :: "nat \<Rightarrow> nat \<Rightarrow> jsnum" where
  "idf_value N c =
     js_log (js_add (js_div (js_add (js_sub (js_of_nat N) (js_of_nat c)) (Fin (1 / 2)))
                            (js_add (js_of_nat c) (Fin (1 / 2))))
                    (Fin 1))"

text \<open>The loop \<open>for (const [term, count] of df) this.idf.set(term, ...)\<close>; the map
  \<open>idf\<close> is the one the engine already holds.\<close>

definition set_idf :: "nat \<Rightarrow> (string \<times> jsnum) list \<Rightarrow> (string \<times> nat) list \<Rightarrow> (string \<times> jsnum) list" where
  "set_idf N m df = foldl (\<lambda>m (t, c). AList.update t (idf_value N c) m) m df"

definition SparseEngine_init :: "SparseEngine \<Rightarrow> document list \<Rightarrow> SparseEngine" where
  "SparseEngine_init e ds =
     (let (df, totalLen) = foldl init_doc ([], 0) ds
      in e\<lparr>docs := ds,
            avgLen := js_div (js_of_nat totalLen) (js_of_nat (length ds)),
            idf := set_idf (length ds) (idf e) df\<rparr>)"

text \<open>
  The summand of a score,
  \<open>idf * ((tf * (k1 + 1)) / (tf + k1 * (1 - b + rel)))\<close>, where \<open>rel\<close> is the
  length of the document relative to the average, times \<open>b\<close>; every scorer computes
  \<open>rel\<close> in its own way. \<open>idf_or0\<close> is \<open>this.idf.get(q) || 0\<close>.
\<close>

definition bm25_term :: "'x SparseEngine_scheme \<Rightarrow> jsnum \<Rightarrow> nat \<Rightarrow> jsnum \<Rightarrow> jsnum" where
  "bm25_term e idf_q tf rel =
     js_mul idf_q
       (js_div (js_mul (js_of_nat tf) (js_add (Fin (k1 e)) (Fin 1)))
               (js_add (js_of_nat tf)
                  (js_mul (Fin (k1 e)) (js_add (js_sub (Fin 1) (Fin (b e))) rel))))"

definition idf_or0 :: "'x SparseEngine_scheme \<Rightarrow> string \<Rightarrow> jsnum" where
  "idf_or0 e q = (case map_of (idf e) q of None \<Rightarrow> Fin 0 | Some v \<Rightarrow> js_or v (Fin 0))"

text \<open>\<open>score(queryTokens, doc)\<close> of \<open>plex-demo.js\<close>: the document is tokenized again on
  every call, and a query token that the document does not hold is skipped.\<close>

definition SparseEngine_score :: "SparseEngine \<Rightarrow> string list \<Rightarrow> document \<Rightarrow> jsnum" where
  "SparseEngine_score e queryTokens doc =
     (let tokens = tokenize doc; freq = term_freq tokens
      in foldl (\<lambda>score q.
                  let tf = get_or0 freq q
                  in if tf = 0 then score
                     else js_add score
                            (bm25_term e (idf_or0 e q) tf
                               (js_div (js_mul (Fin (b e)) (js_of_nat (length tokens))) (avgLen e))))
               (Fin 0) queryTokens)"


section \<open>Sparse engine with cached term frequencies\<close>

text \<open>
  The engine of \<open>plex-vs-dense-demo.mjs\<close> has one more field, \<open>docFreqs\<close>, an array
  written at the index of each document: a partial map from indices to frequency maps.
  Reading it at an index never written gives \<open>undefined\<close>, and calling \<open>get\<close> on
  that is a \<open>TypeError\<close>.
\<close>

datatype js_error = TypeError

record SparseEngineOpt = SparseEngine +
  docFreqs :: "nat \<Rightarrow> (string \<times> nat) list option"

definition SparseEngineOpt_new :: SparseEngineOpt where
  "SparseEngineOpt_new =
     \<lparr>docs = [], idf = [], avgLen = Fin 0, k1 = 12 / 10, b = 75 / 100, docFreqs = Map.empty\<rparr>"

text \<open>One round of \<open>docs.forEach((d, i) => ...)\<close>: the triple is
  \<open>(df, total, docFreqs)\<close>, and \<open>tot\<close> is the variable \<open>total\<close>.\<close>

definition opt_init_doc ::
  "(string \<times> nat) list \<times> nat \<times> (nat \<Rightarrow> (string \<times> nat) list option)
   \<Rightarrow> document \<times> nat
   \<Rightarrow> (string \<times> nat) list \<times> nat \<times> (nat \<Rightarrow> (string \<times> nat) list option)" where
  "opt_init_doc acc di =
     (case acc of (df, tot, fr) \<Rightarrow>
        let tokens = tokenize (fst di)
        in (foldl bump df (js_Set tokens), tot + length tokens,
            fr(snd di \<mapsto> term_freq tokens)))"

definition SparseEngineOpt_init :: "SparseEngineOpt \<Rightarrow> document list \<Rightarrow> SparseEngineOpt" where
  "SparseEngineOpt_init e ds =
     (case foldl opt_init_doc ([], 0, docFreqs e) (zip ds [0..<length ds]) of
        (df, tot, fr) \<Rightarrow>
          e\<lparr>docs := ds,
            docFreqs := fr,
            avgLen := js_div (js_of_nat tot) (js_of_nat (length ds)),
            idf := set_idf (length ds) (idf e) df\<rparr>)"

text \<open>\<open>score(query, docIndex)\<close>: the frequency map is read from \<open>docFreqs\<close>, and the
  length of the document is the sum of its frequencies.\<close>

definition SparseEngineOpt_score :: "SparseEngineOpt \<Rightarrow> string list \<Rightarrow> nat \<Rightarrow> js_error + jsnum" where
  "SparseEngineOpt_score e query docIndex =
     (if query = [] then Inr (Fin 0)
      else case docFreqs e docIndex of
        None \<Rightarrow> Inl TypeError
      | Some tokens \<Rightarrow>
          Inr (foldl (\<lambda>score q.
                        let tf = get_or0 tokens q
                        in if tf = 0 then score
                           else let lenFactor = js_div (js_of_nat (sum_list (map snd tokens)))
                                                       (js_or (avgLen e) (Fin 1))
                                in js_add score
                                     (bm25_term e (idf_or0 e q) tf (js_mul (Fin (b e)) lenFactor)))
                     (Fin 0) query))"

text \<open>\<open>search(query)\<close>: the loop over the indices of \<open>docs\<close>, with the results so
  far; a failing \<open>score\<close> ends it.\<close>

fun search_loop ::
  "SparseEngineOpt \<Rightarrow> string list \<Rightarrow> nat list \<Rightarrow> (document \<times> jsnum) list
   \<Rightarrow> js_error + (document \<times> jsnum) list" where
  "search_loop e tokens [] results = Inr results"
| "search_loop e tokens (i # is) results =
     (case SparseEngineOpt_score e tokens i of
        Inl err \<Rightarrow> Inl err
      | Inr s \<Rightarrow> search_loop e tokens is
                   (if js_gt s (Fin 0) then results @ [(docs e ! i, s)] else results))"

definition SparseEngineOpt_search :: "SparseEngineOpt \<Rightarrow> string list \<Rightarrow> js_error + (document \<times> jsnum) list" where
  "SparseEngineOpt_search e query =
     search_loop e (map toLowerCase query) [0..<length (docs e)] []"


section \<open>Sparse engine of the benchmark\<close>

text \<open>
  The engine of the benchmark script keeps a vocabulary besides the statistics; its
  field \<open>avgDocLen\<close> is \<open>avgLen\<close> here. Its scorer \<open>scoreDoc\<close> reads the document
  at an index of \<open>docs\<close> and tokenizes it again; it has no test on \<open>tf\<close>.
\<close>

record SparseEngineBench = SparseEngine +
  vocab :: "string list"

definition SparseEngineBench_new :: SparseEngineBench where
  "SparseEngineBench_new =
     \<lparr>docs = [], idf = [], avgLen = Fin 0, k1 = 12 / 10, b = 75 / 100, vocab = []\<rparr>"

definition itemToTokens :: "document \<Rightarrow> string list" where
  "itemToTokens item =
     split_ws [] (join_sp (map (\<lambda>f. toLowerCase (field item f))
                               [''city'', ''state'', ''zip'', ''_id'']))"

text \<open>One round of \<open>tokens.forEach\<close> in \<open>init\<close>: the triple is
  \<open>(seen, termDocCount, vocab)\<close>.\<close>

definition bench_token ::
  "string list \<times> (string \<times> nat) list \<times> string list \<Rightarrow> string
   \<Rightarrow> string list \<times> (string \<times> nat) list \<times> string list" where
  "bench_token acc t =
     (case acc of (seen, termDocCount, voc) \<Rightarrow>
        (if t \<in> set seen then seen else seen @ [t],
         if t \<in> set seen then termDocCount else bump termDocCount t,
         if t \<in> set voc then voc else voc @ [t]))"

text \<open>One round of \<open>docs.forEach\<close>: the triple is \<open>(termDocCount, totalLen, vocab)\<close>.\<close>

definition bench_init_doc ::
  "(string \<times> nat) list \<times> nat \<times> string list \<Rightarrow> document
   \<Rightarrow> (string \<times> nat) list \<times> nat \<times> string list" where
  "bench_init_doc acc doc =
     (case acc of (termDocCount, totalLen, voc) \<Rightarrow>
        let tokens = itemToTokens doc
        in case foldl bench_token ([], termDocCount, voc) tokens of
             (seen, termDocCount', voc') \<Rightarrow> (termDocCount', totalLen + length tokens, voc'))"

definition SparseEngineBench_init :: "SparseEngineBench \<Rightarrow> document list \<Rightarrow> SparseEngineBench" where
  "SparseEngineBench_init e ds =
     (case foldl bench_init_doc ([], 0, vocab e) ds of
        (termDocCount, totalLen, voc) \<Rightarrow>
          e\<lparr>docs := ds,
            vocab := voc,
            avgLen := js_div (js_of_nat totalLen) (js_of_nat (length ds)),
            idf := set_idf (length ds) (idf e) termDocCount\<rparr>)"

definition SparseEngineBench_scoreDoc :: "SparseEngineBench \<Rightarrow> string list \<Rightarrow> nat \<Rightarrow> js_error + jsnum" where
  "SparseEngineBench_scoreDoc e tokens docIndex =
     (if length (docs e) \<le> docIndex then Inl TypeError
      else let docTokens = itemToTokens (docs e ! docIndex);
               docLen = length docTokens;
               freq = term_freq docTokens
           in Inr (foldl (\<lambda>score t.
                            let tf = get_or0 freq t
                            in js_add score
                                 (bm25_term e (idf_or0 e t) tf
                                    (js_div (js_mul (Fin (b e)) (js_of_nat docLen)) (avgLen e))))
                         (Fin 0) tokens))"


text \<open>
  \<open>Array.prototype.sort\<close> with a comparison function is stable, and for a function
  that compares by a total preorder its result is determined: the sorted permutation
  that keeps equal elements in their order. Insertion from the right computes it;
  \<open>cmp x y > 0\<close> puts \<open>x\<close> after \<open>y\<close>.
\<close>

fun js_insert :: "('a \<Rightarrow> 'a \<Rightarrow> jsnum) \<Rightarrow> 'a \<Rightarrow> 'a list \<Rightarrow> 'a list" where
  "js_insert cmp x [] = [x]"
| "js_insert cmp x (y # ys) =
     (if js_gt (cmp x y) (Fin 0) then y # js_insert cmp x ys else x # y # ys)"

definition js_sort :: "('a \<Rightarrow> 'a \<Rightarrow> jsnum) \<Rightarrow> 'a list \<Rightarrow> 'a list" where
  "js_sort cmp xs = foldr (js_insert cmp) xs []"

text \<open>
  The ranking of the benchmark script,
  \<open>data.map((_, i) => ({ id: i, score: SparseEngine.scoreDoc(tokens, i) }))
  .sort((a, b) => b.score - a.score).slice(0, 10)\<close>,
  on the documents the engine was built on: \<open>rank_map\<close> is the \<open>map\<close>, which a
  failing \<open>scoreDoc\<close> ends.
\<close>

fun rank_map :: "SparseEngineBench \<Rightarrow> string list \<Rightarrow> nat list \<Rightarrow> js_error + (nat \<times> jsnum) list" where
  "rank_map e tokens [] = Inr []"
| "rank_map e tokens (i # is) =
     (case SparseEngineBench_scoreDoc e tokens i of
        Inl err \<Rightarrow> Inl err
      | Inr s \<Rightarrow> (case rank_map e tokens is of
                   Inl err \<Rightarrow> Inl err
                 | Inr rs \<Rightarrow> Inr ((i, s) # rs)))"

definition bench_ranked :: "SparseEngineBench \<Rightarrow> string list \<Rightarrow> js_error + (nat \<times> jsnum) list" where
  "bench_ranked e tokens =
     (case rank_map e tokens [0..<length (docs e)] of
        Inl err \<Rightarrow> Inl err
      | Inr rs \<Rightarrow> Inr (take 10 (js_sort (\<lambda>a b. js_sub (snd b) (snd a)) rs)))"


section \<open>Double arithmetic\<close>

text \<open>
  The numbers of the engines are IEEE 754 doubles: each of \<open>+\<close>, \<open>-\<close>, \<open>*\<close> and
  \<open>/\<close> returns the double nearest to the exact result, and of two doubles equally near
  the one whose mantissa is even. \<open>round_double\<close> is this rounding on the reals, to 53
  bits of mantissa: a number \<open>x\<close> with \<open>2^k \<le> |x| < 2^(k+1)\<close> is rounded to a multiple
  of \<open>2^(k-52)\<close>. The exponent is not bounded, so overflow and subnormal numbers are not
  modelled; the scores of the engines are far from both.
\<close>

definition pow2 :: "int \<Rightarrow> real" where
  "pow2 e = (if 0 \<le> e then 2 ^ nat e else 1 / 2 ^ nat (- e))"

text \<open>The integer nearest to \<open>q\<close>, the even one of two equally near.\<close>

definition round_even :: "real \<Rightarrow> int" where
  "round_even q =
     (let f = \<lfloor>q\<rfloor>; d = q - of_int f
      in if d < 1 / 2 then f else if 1 / 2 < d then f + 1 else if even f then f else f + 1)"

definition round_double :: "real \<Rightarrow> real" where
  "round_double x =
     (if x = 0 then 0
      else let e = \<lfloor>log 2 \<bar>x\<bar>\<rfloor> - 52 in of_int (round_even (x / pow2 e)) * pow2 e)"

definition js_round :: "jsnum \<Rightarrow> jsnum" where
  "js_round x = (case x of Fin a \<Rightarrow> Fin (round_double a) | _ \<Rightarrow> x)"

text \<open>
  The operations on doubles. \<open>Math.log\<close> is taken to return the double nearest to the
  logarithm; the language leaves its precision to the implementation.
\<close>

definition dbl_add :: "jsnum \<Rightarrow> jsnum \<Rightarrow> jsnum" where
  "dbl_add x y = js_round (js_add x y)"

definition dbl_sub :: "jsnum \<Rightarrow> jsnum \<Rightarrow> jsnum" where
  "dbl_sub x y = js_round (js_sub x y)"

definition dbl_mul :: "jsnum \<Rightarrow> jsnum \<Rightarrow> jsnum" where
  "dbl_mul x y = js_round (js_mul x y)"

definition dbl_div :: "jsnum \<Rightarrow> jsnum \<Rightarrow> jsnum" where
  "dbl_div x y = js_round (js_div x y)"

definition dbl_log :: "jsnum \<Rightarrow> jsnum" where
  "dbl_log x = js_round (js_log x)"

text \<open>
  \<open>init\<close> and \<open>score\<close> of \<open>plex-demo.js\<close> and of \<open>plex-vs-dense-demo.mjs\<close> once
  more, with every operation on doubles. The loops over the documents count with
  integers, which are doubles as they are; the literals \<open>1.2\<close> and \<open>0.75\<close> are the
  doubles nearest to them.
\<close>

definition idf_value_double :: "nat \<Rightarrow> nat \<Rightarrow> jsnum" where
  "idf_value_double N c =
     dbl_log (dbl_add (dbl_div (dbl_add (dbl_sub (js_of_nat N) (js_of_nat c)) (Fin (1 / 2)))
                               (dbl_add (js_of_nat c) (Fin (1 / 2))))
                      (Fin 1))"

definition set_idf_double :: "nat \<Rightarrow> (string \<times> jsnum) list \<Rightarrow> (string \<times> nat) list \<Rightarrow> (string \<times> jsnum) list" where
  "set_idf_double N m df = foldl (\<lambda>m (t, c). AList.update t (idf_value_double N c) m) m df"

definition SparseEngine_init_double :: "SparseEngine \<Rightarrow> document list \<Rightarrow> SparseEngine" where
  "SparseEngine_init_double e ds =
     (let (df, totalLen) = foldl init_doc ([], 0) ds
      in e\<lparr>docs := ds,
            avgLen := dbl_div (js_of_nat totalLen) (js_of_nat (length ds)),
            idf := set_idf_double (length ds) (idf e) df\<rparr>)"

definition SparseEngineOpt_init_double :: "SparseEngineOpt \<Rightarrow> document list \<Rightarrow> SparseEngineOpt" where
  "SparseEngineOpt_init_double e ds =
     (case foldl opt_init_doc ([], 0, docFreqs e) (zip ds [0..<length ds]) of
        (df, tot, fr) \<Rightarrow>
          e\<lparr>docs := ds,
            docFreqs := fr,
            avgLen := dbl_div (js_of_nat tot) (js_of_nat (length ds)),
            idf := set_idf_double (length ds) (idf e) df\<rparr>)"

text \<open>The summand \<open>idf * ((tf * (k1 + 1)) / (tf + k1 * (1 - b + rel)))\<close>.\<close>

definition bm25_term_double :: "'x SparseEngine_scheme \<Rightarrow> jsnum \<Rightarrow> nat \<Rightarrow> jsnum \<Rightarrow> jsnum" where
  "bm25_term_double e idf_q tf rel =
     dbl_mul idf_q
       (dbl_div (dbl_mul (js_of_nat tf) (dbl_add (js_round (Fin (k1 e))) (Fin 1)))
                (dbl_add (js_of_nat tf)
                   (dbl_mul (js_round (Fin (k1 e)))
                      (dbl_add (dbl_sub (Fin 1) (js_round (Fin (b e)))) rel))))"

text \<open>\<open>score\<close> of \<open>plex-demo.js\<close>: its last argument is
  \<open>this.b * tokens.length / this.avgLen\<close>, the product first.\<close>

definition SparseEngine_score_double :: "SparseEngine \<Rightarrow> string list \<Rightarrow> document \<Rightarrow> jsnum" where
  "SparseEngine_score_double e queryTokens doc =
     (let tokens = tokenize doc; freq = term_freq tokens
      in foldl (\<lambda>score q.
                  let tf = get_or0 freq q
                  in if tf = 0 then score
                     else dbl_add score
                            (bm25_term_double e (idf_or0 e q) tf
                               (dbl_div (dbl_mul (js_round (Fin (b e))) (js_of_nat (length tokens)))
                                        (avgLen e))))
               (Fin 0) queryTokens)"

text \<open>\<open>score\<close> of \<open>plex-vs-dense-demo.mjs\<close>: \<open>lenFactor\<close> is the quotient
  \<open>sum / (this.avgLen || 1)\<close>, and the last argument is \<open>this.b * lenFactor\<close>, the
  quotient first.\<close>

definition SparseEngineOpt_score_double :: "SparseEngineOpt \<Rightarrow> string list \<Rightarrow> nat \<Rightarrow> js_error + jsnum" where
  "SparseEngineOpt_score_double e query docIndex =
     (if query = [] then Inr (Fin 0)
      else case docFreqs e docIndex of
        None \<Rightarrow> Inl TypeError
      | Some tokens \<Rightarrow>
          Inr (foldl (\<lambda>score q.
                        let tf = get_or0 tokens q
                        in if tf = 0 then score
                           else let lenFactor = dbl_div (js_of_nat (sum_list (map snd tokens)))
                                                        (js_or (avgLen e) (Fin 1))
                                in dbl_add score
                                     (bm25_term_double e (idf_or0 e q) tf
                                        (dbl_mul (js_round (Fin (b e))) lenFactor)))
                     (Fin 0) query))"


section \<open>Pulse runtime\<close>

text \<open>
  \<open>PlexRuntime\<close> of \<open>plex.js\<close>. The constructor takes an object whose two options may
  be absent, and stores them, or \<open>32\<close> and \<open>8\<close>, without any test. The options
  are integers.
\<close>

record PlexRuntime =
  pulseSize :: int
  maxConcurrency :: int
  active :: int

definition PlexRuntime_constructor :: "int option \<Rightarrow> int option \<Rightarrow> PlexRuntime" where
  "PlexRuntime_constructor ps mc =
     \<lparr>pulseSize = (case ps of None \<Rightarrow> 32 | Some p \<Rightarrow> p),
      maxConcurrency = (case mc of None \<Rightarrow> 8 | Some c \<Rightarrow> c),
      active = 0\<rparr>"

text \<open>A task is \<open>{ id: i, data: d }\<close>; a result is the pair of \<open>id\<close> and \<open>result\<close>.\<close>

record 'a task =
  task_id :: nat
  data :: 'a

definition tasks_of :: "'a list \<Rightarrow> 'a task list" where
  "tasks_of dataset = map (\<lambda>(i, d). \<lparr>task_id = i, data = d\<rparr>) (List.enumerate 0 dataset)"

text \<open>\<open>xs.slice(start, end)\<close>: a negative bound counts from the end of the array, and
  both bounds are clamped to it.\<close>

definition slice_js :: "'a list \<Rightarrow> int \<Rightarrow> int \<Rightarrow> 'a list" where
  "slice_js xs start end' =
     (let n = int (length xs);
          k = (if start < 0 then max (n + start) 0 else min start n);
          f = (if end' < 0 then max (n + end') 0 else min end' n)
      in take (nat (f - k)) (drop (nat k) xs))"

text \<open>
  \<open>run\<close> and \<open>executePulse\<close> are asynchronous: between two \<open>await\<close>s a piece of code
  runs alone, and at an \<open>await\<close> the units in flight may settle, in any order. A run is
  therefore a sequence of events over a state. The state holds the runtime's fields, the
  array \<open>results\<close> of \<open>run\<close>, the array \<open>inflight\<close> of the current call of
  \<open>executePulse\<close> (each promise with the task of its unit) and the place where the main
  flow stands:
  \<^item> \<open>AtLoop i\<close>: at the test of the loop of \<open>run\<close>, with its index \<open>i\<close>;
  \<^item> \<open>InPulse i todo\<close>: in the loop of \<open>executePulse\<close>, before the test of the
    \<open>while\<close> for the first task of \<open>todo\<close>, or before \<open>Promise.all\<close> when
    \<open>todo\<close> is empty;
  \<^item> \<open>AwaitRace i todo\<close>: suspended at \<open>await Promise.race(inflight)\<close>, no promise
    of \<open>inflight\<close> being settled;
  \<^item> \<open>AwaitAll i\<close>: suspended at \<open>await Promise.all(inflight)\<close>;
  \<^item> \<open>Returned\<close>: \<open>run\<close> has returned \<open>results\<close>;
  \<^item> \<open>Failed e\<close>: \<open>run\<close> has thrown \<open>e\<close>.

  The per-item function is given by its outcome on each item, \<open>Inl e\<close> when it throws
  or rejects with \<open>e\<close> and \<open>Inr r\<close> when it yields \<open>r\<close>; when it settles is
  decided by the sequence of events. A unit may settle between any two steps of the main
  flow: a function that throws at once settles its unit during the launch, and every
  other settlement happens while the main flow is suspended or between two rounds of
  its \<open>while\<close> loop. Every run of the code is a sequence of events of the model, so
  what holds after every sequence of events holds in every run. Not every sequence of
  events is a run: the model lets a unit settle between any two steps of the main
  flow, whatever its function waits for.
\<close>

datatype 'e promise = Pending | Fulfilled | Rejected 'e

datatype ('a, 'e) pc =
    AtLoop int
  | InPulse int "'a task list"
  | AwaitRace int "'a task list"
  | AwaitAll int
  | Returned
  | Failed 'e

record ('a, 'e, 'r) run_state = PlexRuntime +
  results :: "(nat \<times> 'r) list"
  inflight :: "('a task \<times> 'e promise) list"
  pc :: "('a, 'e) pc"

text \<open>The call \<open>run(dataset, fn)\<close> on a runtime, before its first step.\<close>

definition run_start :: "PlexRuntime \<Rightarrow> ('a, 'e, 'r) run_state" where
  "run_start rt =
     \<lparr>pulseSize = pulseSize rt, maxConcurrency = maxConcurrency rt, active = active rt,
      results = [], inflight = [], pc = AtLoop 0\<rparr>"

text \<open>The promise that decides \<open>Promise.race\<close> when it is called: the first one, in
  the order of the array, that is already settled.\<close>

fun first_settled :: "('a task \<times> 'e promise) list \<Rightarrow> 'e promise option" where
  "first_settled [] = None"
| "first_settled ((t, Pending) # ps) = first_settled ps"
| "first_settled ((t, p) # ps) = Some p"

text \<open>The rejection that decides \<open>Promise.all\<close> when it is called.\<close>

fun first_rejected :: "('a task \<times> 'e promise) list \<Rightarrow> 'e option" where
  "first_rejected [] = None"
| "first_rejected ((t, Rejected e) # ps) = Some e"
| "first_rejected ((t, p) # ps) = first_rejected ps"

definition all_fulfilled :: "('a task \<times> 'e promise) list \<Rightarrow> bool" where
  "all_fulfilled ps = list_all (\<lambda>p. snd p = Fulfilled) ps"

text \<open>
  The main flow runs up to its next \<open>await\<close>. At the loop of \<open>run\<close> it cuts the next
  pulse or returns. In \<open>executePulse\<close>, with a task left, it launches the unit when
  \<open>active < maxConcurrency\<close>: \<open>active++\<close>, and the promise of the unit joins
  \<open>inflight\<close>; otherwise it awaits the race, which a settled promise decides at once
  (a rejection is thrown, a fulfilment leads back to the test of the \<open>while\<close>). With
  no task left it awaits \<open>Promise.all\<close>, after which the index of \<open>run\<close> advances
  by \<open>pulseSize\<close>. A suspended or finished main flow has no step of its own.
\<close>

definition main_step :: "'a list \<Rightarrow> ('a, 'e, 'r) run_state \<Rightarrow> ('a, 'e, 'r) run_state option" where
  "main_step dataset s =
     (case pc s of
        AtLoop i \<Rightarrow>
          Some (if i < int (length dataset)
                then s\<lparr>inflight := [],
                       pc := InPulse i (slice_js (tasks_of dataset) i (i + pulseSize s))\<rparr>
                else s\<lparr>pc := Returned\<rparr>)
      | InPulse i [] \<Rightarrow>
          Some (case first_rejected (inflight s) of
                  Some e \<Rightarrow> s\<lparr>pc := Failed e\<rparr>
                | None \<Rightarrow> if all_fulfilled (inflight s)
                          then s\<lparr>pc := AtLoop (i + pulseSize s)\<rparr>
                          else s\<lparr>pc := AwaitAll i\<rparr>)
      | InPulse i (t # todo) \<Rightarrow>
          Some (if maxConcurrency s \<le> active s
                then (case first_settled (inflight s) of
                        None \<Rightarrow> s\<lparr>pc := AwaitRace i (t # todo)\<rparr>
                      | Some (Rejected e) \<Rightarrow> s\<lparr>pc := Failed e\<rparr>
                      | Some p \<Rightarrow> s)
                else s\<lparr>active := active s + 1,
                       inflight := inflight s @ [(t, Pending)],
                       pc := InPulse i todo\<rparr>)
      | AwaitRace i todo \<Rightarrow> None
      | AwaitAll i \<Rightarrow> None
      | Returned \<Rightarrow> None
      | Failed e \<Rightarrow> None)"

text \<open>
  The unit at position \<open>k\<close> of \<open>inflight\<close> settles. On success its record is pushed
  on \<open>results\<close>; on both paths the \<open>finally\<close> block runs \<open>active--\<close>. A main flow
  suspended at the race resumes, or fails with the rejection; one suspended at
  \<open>Promise.all\<close> fails with the rejection, or passes the barrier when this was the
  last promise.
\<close>

definition settle_step ::
  "('a \<Rightarrow> 'e + 'r) \<Rightarrow> nat \<Rightarrow> ('a, 'e, 'r) run_state \<Rightarrow> ('a, 'e, 'r) run_state option" where
  "settle_step fn k s =
     (if k < length (inflight s) \<and> snd (inflight s ! k) = Pending
      then let t = fst (inflight s ! k)
           in case fn (data t) of
                Inr r \<Rightarrow>
                  let fl = (inflight s)[k := (t, Fulfilled)]
                  in Some (s\<lparr>results := results s @ [(task_id t, r)],
                             active := active s - 1,
                             inflight := fl,
                             pc := (case pc s of
                                      AwaitRace i todo \<Rightarrow> InPulse i todo
                                    | AwaitAll i \<Rightarrow> if all_fulfilled fl
                                                    then AtLoop (i + pulseSize s) else AwaitAll i
                                    | c \<Rightarrow> c)\<rparr>)
              | Inl e \<Rightarrow>
                  Some (s\<lparr>active := active s - 1,
                          inflight := (inflight s)[k := (t, Rejected e)],
                          pc := (case pc s of
                                   AwaitRace i todo \<Rightarrow> Failed e
                                 | AwaitAll i \<Rightarrow> Failed e
                                 | c \<Rightarrow> c)\<rparr>)
      else None)"

datatype event = Main | Settle nat

fun step :: "'a list \<Rightarrow> ('a \<Rightarrow> 'e + 'r) \<Rightarrow> event \<Rightarrow> ('a, 'e, 'r) run_state \<Rightarrow> ('a, 'e, 'r) run_state option" where
  "step dataset fn Main s = main_step dataset s"
| "step dataset fn (Settle k) s = settle_step fn k s"

text \<open>The state after a sequence of events, when each of them can happen in turn.\<close>

fun exec :: "'a list \<Rightarrow> ('a \<Rightarrow> 'e + 'r) \<Rightarrow> event list \<Rightarrow> ('a, 'e, 'r) run_state \<Rightarrow> ('a, 'e, 'r) run_state option" where
  "exec dataset fn [] s = Some s"
| "exec dataset fn (ev # evs) s =
     (case step dataset fn ev s of None \<Rightarrow> None | Some s' \<Rightarrow> exec dataset fn evs s')"


text \<open>The number of units in flight that have not settled.\<close>

definition pending_count :: "('a task \<times> 'e promise) list \<Rightarrow> nat" where
  "pending_count ps = length (filter (\<lambda>p. snd p = Pending) ps)"


section \<open>Notions for the statements and the proofs\<close>

text \<open>The number of documents that hold a term, and the number of tokens of a corpus.\<close>

definition doc_count :: "document list \<Rightarrow> string \<Rightarrow> nat" where
  "doc_count ds k = length (filter (\<lambda>d. k \<in> set (tokenize d)) ds)"

definition total_len :: "document list \<Rightarrow> nat" where
  "total_len ds = sum_list (map (\<lambda>d. length (tokenize d)) ds)"

text \<open>The elements of a list that a set holding \<open>seen\<close> does not hold yet, each at
  its first occurrence.\<close>

fun news :: "'a list \<Rightarrow> 'a list \<Rightarrow> 'a list" where
  "news seen [] = []"
| "news seen (t # ts) = (if t \<in> set seen then news seen ts else t # news (seen @ [t]) ts)"

text \<open>The two assignments of \<open>pc\<close> in \<open>settle_step\<close>, named.\<close>

definition pc_fulfil :: "('a, 'e, 'r) run_state \<Rightarrow> ('a task \<times> 'e promise) list \<Rightarrow> ('a, 'e) pc" where
  "pc_fulfil s fl =
     (case pc s of
        AwaitRace i todo \<Rightarrow> InPulse i todo
      | AwaitAll i \<Rightarrow> if all_fulfilled fl then AtLoop (i + pulseSize s) else AwaitAll i
      | c \<Rightarrow> c)"

definition pc_reject :: "('a, 'e, 'r) run_state \<Rightarrow> 'e \<Rightarrow> ('a, 'e) pc" where
  "pc_reject s e = (case pc s of AwaitRace i todo \<Rightarrow> Failed e | AwaitAll i \<Rightarrow> Failed e | c \<Rightarrow> c)"

text \<open>Three invariants of a run: the counter is within its bound; the counter is the
  number of pending units, none of them at a barrier; every task comes from the dataset
  and every failure from the per-item function.\<close>

definition bounded :: "('a, 'e, 'r) run_state \<Rightarrow> bool" where
  "bounded s = (active s \<le> maxConcurrency s)"

definition at_barrier :: "('a, 'e) pc \<Rightarrow> bool" where
  "at_barrier c = (case c of AtLoop i \<Rightarrow> True | Returned \<Rightarrow> True | _ \<Rightarrow> False)"

definition counted :: "('a, 'e, 'r) run_state \<Rightarrow> bool" where
  "counted s = (active s = int (pending_count (inflight s)) \<and>
                (at_barrier (pc s) \<longrightarrow> all_fulfilled (inflight s)))"

fun todo_of :: "('a, 'e) pc \<Rightarrow> 'a task list" where
  "todo_of (InPulse i todo) = todo"
| "todo_of (AwaitRace i todo) = todo"
| "todo_of c = []"

definition own_failure :: "'a list \<Rightarrow> ('a \<Rightarrow> 'e + 'r) \<Rightarrow> ('a, 'e, 'r) run_state \<Rightarrow> bool" where
  "own_failure dataset fn s =
     ((\<forall>x \<in> set (inflight s). data (fst x) \<in> set dataset \<and>
                               (\<forall>e. snd x = Rejected e \<longrightarrow> fn (data (fst x)) = Inl e)) \<and>
      (\<forall>t \<in> set (todo_of (pc s)). data t \<in> set dataset) \<and>
      (\<forall>e. pc s = Failed e \<longrightarrow> (\<exists>d \<in> set dataset. fn d = Inl e)))"


text \<open>A fourth invariant, for a per-item function \<open>f\<close> that never fails: the records in
  \<open>results\<close> are those of the tasks of the pulses passed and of the fulfilled units of
  the current pulse, and the current pulse is the slice of the tasks at the index of
  \<open>run\<close>.\<close>










section \<open>The idf formula\<close>

text \<open>For a document frequency between \<open>0\<close> and \<open>N\<close> the argument of the logarithm
  is \<open>(N + 1) / (df + 0.5)\<close>, greater than one.\<close>

lemma js_log_pos: "0 < x \<Longrightarrow> js_log (Fin x) = Fin (ln x)"
  by simp

lemma idf_value_eq:
  assumes "c \<le> N"
  shows "idf_value N c = Fin (ln ((real N + 1) / (real c + 1 / 2)))"
proof -
  have pos: "0 < real c + 1 / 2" by simp
  have e: "(real N - real c + 1 / 2) / (real c + 1 / 2) + 1 = (real N + 1) / (real c + 1 / 2)"
    using pos by (simp add: field_simps)
  have q: "0 < (real N + 1) / (real c + 1 / 2)"
    by (simp add: add_pos_pos)
  have "idf_value N c = js_log (Fin ((real N - real c + 1 / 2) / (real c + 1 / 2) + 1))"
    using pos by (simp add: idf_value_def js_of_nat_def js_sub_def)
  also have "\<dots> = js_log (Fin ((real N + 1) / (real c + 1 / 2)))"
    by (simp only: e)
  also have "\<dots> = Fin (ln ((real N + 1) / (real c + 1 / 2)))"
    using q by (rule js_log_pos)
  finally show ?thesis .
qed

lemma idf_value_pos:
  assumes "c \<le> N"
  shows "\<exists>r. idf_value N c = Fin r \<and> 0 < r"
proof -
  have "real c + 1 / 2 < real N + 1" using assms by simp
  then have "1 < (real N + 1) / (real c + 1 / 2)" by simp
  then have "0 < ln ((real N + 1) / (real c + 1 / 2))" by simp
  then show ?thesis using idf_value_eq [OF assms] by blast
qed


section \<open>Maps of counts\<close>

text \<open>What \<open>get\<close> returns after a loop of \<open>bump\<close>: the count before, plus the
  occurrences in the list.\<close>

lemma foldl_Set_aux:
  "set (foldl (\<lambda>s x. if x \<in> set s then s else s @ [x]) s0 xs) = set s0 \<union> set xs \<and>
   (distinct s0 \<longrightarrow> distinct (foldl (\<lambda>s x. if x \<in> set s then s else s @ [x]) s0 xs))"
  by (induction xs arbitrary: s0) auto

lemma set_js_Set [simp]: "set (js_Set xs) = set xs"
  using foldl_Set_aux [of "[]" xs] by (simp add: js_Set_def)

lemma distinct_js_Set [simp]: "distinct (js_Set xs)"
  using foldl_Set_aux [of "[]" xs] by (simp add: js_Set_def)

lemma map_of_bump: "map_of (bump m t) = (map_of m)(t \<mapsto> get_or0 m t + 1)"
  by (simp add: bump_def update_conv')

lemma get_or0_bump: "get_or0 (bump m t) k = (if k = t then get_or0 m t + 1 else get_or0 m k)"
  by (simp add: get_or0_def map_of_bump)

lemma distinct_bump: "distinct (map fst m) \<Longrightarrow> distinct (map fst (bump m t))"
  by (simp add: bump_def distinct_update)

lemma distinct_foldl_bump: "distinct (map fst m) \<Longrightarrow> distinct (map fst (foldl bump m ts))"
  by (induction ts arbitrary: m) (simp_all add: distinct_bump)

lemma get_or0_foldl_bump: "get_or0 (foldl bump m ts) k = get_or0 m k + count_list ts k"
  by (induction ts arbitrary: m) (simp_all add: get_or0_bump)

lemma map_of_foldl_bump:
  "map_of (foldl bump m ts) k =
     (if k \<in> set ts then Some (get_or0 m k + count_list ts k) else map_of m k)"
proof (induction ts arbitrary: m)
  case Nil
  show ?case by simp
next
  case (Cons t ts)
  show ?case
    by (simp add: Cons.IH get_or0_bump map_of_bump count_list_0_iff)
qed

lemma count_list_distinct: "distinct ts \<Longrightarrow> count_list ts k = (if k \<in> set ts then 1 else 0)"
  by (induction ts) auto


section \<open>Statistics built by \<open>init\<close>\<close>

text \<open>After \<open>init\<close> the map \<open>df\<close> holds, for every term of the corpus, the number
  of documents with that term, and \<open>idf\<close> the value of the formula at that number.\<close>

lemma doc_count_Nil [simp]: "doc_count [] k = 0"
  by (simp add: doc_count_def)

lemma doc_count_Cons:
  "doc_count (d # ds) k = (if k \<in> set (tokenize d) then 1 else 0) + doc_count ds k"
  by (simp add: doc_count_def)

lemma doc_count_le: "doc_count ds k \<le> length ds"
  by (simp add: doc_count_def)

lemma doc_count_pos: "0 < doc_count ds k \<longleftrightarrow> (\<exists>d \<in> set ds. k \<in> set (tokenize d))"
  by (auto simp: doc_count_def filter_empty_conv)

lemma map_of_init_doc:
  "map_of (fst (init_doc acc d)) k =
     (if k \<in> set (tokenize d) then Some (get_or0 (fst acc) k + 1) else map_of (fst acc) k)"
  by (simp add: init_doc_def Let_def map_of_foldl_bump count_list_distinct)

lemma get_or0_init_doc:
  "get_or0 (fst (init_doc acc d)) k = get_or0 (fst acc) k + (if k \<in> set (tokenize d) then 1 else 0)"
  by (simp add: get_or0_def map_of_init_doc)

lemma snd_init_doc: "snd (init_doc acc d) = snd acc + length (tokenize d)"
  by (simp add: init_doc_def Let_def)

lemma distinct_init_doc: "distinct (map fst (fst acc)) \<Longrightarrow> distinct (map fst (fst (init_doc acc d)))"
  by (simp add: init_doc_def Let_def distinct_foldl_bump)

lemma distinct_foldl_init_doc:
  "distinct (map fst (fst acc)) \<Longrightarrow> distinct (map fst (fst (foldl init_doc acc ds)))"
  by (induction ds arbitrary: acc) (simp_all add: distinct_init_doc)

lemma get_or0_foldl_init_doc:
  "get_or0 (fst (foldl init_doc acc ds)) k = get_or0 (fst acc) k + doc_count ds k"
  by (induction ds arbitrary: acc) (simp_all add: get_or0_init_doc doc_count_Cons)

lemma map_of_foldl_init_doc:
  "map_of (fst (foldl init_doc acc ds)) k =
     (if 0 < doc_count ds k then Some (get_or0 (fst acc) k + doc_count ds k) else map_of (fst acc) k)"
proof (induction ds arbitrary: acc)
  case Nil
  show ?case by simp
next
  case (Cons d ds)
  show ?case
    by (simp add: Cons.IH map_of_init_doc get_or0_init_doc doc_count_Cons)
qed

lemma snd_foldl_init_doc: "snd (foldl init_doc acc ds) = snd acc + total_len ds"
  by (induction ds arbitrary: acc) (simp_all add: snd_init_doc total_len_def)

lemma map_of_set_idf:
  "distinct (map fst df) \<Longrightarrow>
   map_of (set_idf N m df) k =
     (case map_of df k of Some c \<Rightarrow> Some (idf_value N c) | None \<Rightarrow> map_of m k)"
proof (induction df arbitrary: m)
  case Nil
  show ?case by (simp add: set_idf_def)
next
  case (Cons p df)
  obtain t c where p: "p = (t, c)" by (cases p)
  have d: "distinct (map fst df)" and nt: "t \<notin> fst ` set df" using Cons.prems p by auto
  have step: "set_idf N m ((t, c) # df) = set_idf N (AList.update t (idf_value N c) m) df"
    by (simp add: set_idf_def)
  have none: "map_of df t = None" using nt by (simp add: map_of_eq_None_iff)
  show ?case
    using none by (simp add: step Cons.IH [OF d] p update_conv' split: option.splits)
qed

lemma SparseEngine_init_avgLen:
  "avgLen (SparseEngine_init e ds) = js_div (js_of_nat (total_len ds)) (js_of_nat (length ds))"
proof -
  obtain df tot where f: "foldl init_doc ([], 0) ds = (df, tot)" by (cases "foldl init_doc ([], 0) ds")
  have "tot = total_len ds" using snd_foldl_init_doc [of "([], 0)" ds] f by simp
  then show ?thesis by (simp add: SparseEngine_init_def f)
qed

lemma SparseEngine_init_idf:
  "map_of (idf (SparseEngine_init e ds)) k =
     (if 0 < doc_count ds k then Some (idf_value (length ds) (doc_count ds k)) else map_of (idf e) k)"
proof -
  obtain df tot where f: "foldl init_doc ([], 0) ds = (df, tot)" by (cases "foldl init_doc ([], 0) ds")
  have d: "distinct (map fst df)" using distinct_foldl_init_doc [of "([], 0)" ds] f by simp
  have m: "map_of df k = (if 0 < doc_count ds k then Some (doc_count ds k) else None)"
    using map_of_foldl_init_doc [of "([], 0)" ds k] f by (simp add: get_or0_def)
  show ?thesis by (simp add: SparseEngine_init_def f map_of_set_idf [OF d] m)
qed

lemma SparseEngine_init_fields:
  "docs (SparseEngine_init e ds) = ds" "k1 (SparseEngine_init e ds) = k1 e" "b (SparseEngine_init e ds) = b e"
  by (simp_all add: SparseEngine_init_def split: prod.splits)


section \<open>Term frequencies and the summand of a score\<close>

text \<open>The frequency map of a document counts the occurrences of each token; its values
  add up to the length of the document. With finite arguments and a positive
  denominator the summand is the quotient on the reals.\<close>

lemma get_or0_Nil: "get_or0 [] q = 0"
  by (simp add: get_or0_def)

lemma get_or0_term_freq: "get_or0 (term_freq ts) q = count_list ts q"
  by (simp add: term_freq_def get_or0_foldl_bump get_or0_Nil)

lemma sum_snd_bump: "sum_list (map snd (bump m t)) = sum_list (map snd m) + 1"
proof -
  have "sum_list (map snd (AList.update t (get_or0 m t + 1) m)) = sum_list (map snd m) + 1"
  proof (induction m)
    case Nil
    show ?case by (simp add: get_or0_def)
  next
    case (Cons p m)
    obtain k c where p: "p = (k, c)" by (cases p)
    show ?case
    proof (cases "k = t")
      case True
      then show ?thesis by (simp add: p get_or0_def)
    next
      case False
      have g: "get_or0 ((k, c) # m) t = get_or0 m t" using False by (simp add: get_or0_def)
      show ?thesis using False Cons.IH by (simp add: p g)
    qed
  qed
  then show ?thesis by (simp add: bump_def)
qed

lemma sum_snd_foldl_bump: "sum_list (map snd (foldl bump m ts)) = sum_list (map snd m) + length ts"
  by (induction ts arbitrary: m) (simp_all add: sum_snd_bump)

lemma sum_snd_term_freq: "sum_list (map snd (term_freq ts)) = length ts"
  by (simp add: term_freq_def sum_snd_foldl_bump)

lemma bm25_term_Fin:
  assumes "0 \<le> k1 e" and "b e \<le> 1" and "0 < tf" and "0 \<le> x"
  shows "bm25_term e (Fin r) tf (Fin x) =
           Fin (r * ((real tf * (k1 e + 1)) / (real tf + k1 e * (1 - b e + x))))"
proof -
  have "0 \<le> k1 e * (1 - b e + x)" using assms by simp
  then have "0 < real tf + k1 e * (1 - b e + x)" using assms(3) by (simp add: add_pos_nonneg)
  then have nz: "real tf + k1 e * (1 - b e + x) \<noteq> 0" by simp
  show ?thesis using nz by (simp add: bm25_term_def js_of_nat_def js_sub_def)
qed

lemma bm25_term_nonneg:
  assumes "0 \<le> k1 e" and "b e \<le> 1" and "0 < tf" and "0 \<le> x" and "0 \<le> r"
  shows "0 \<le> r * ((real tf * (k1 e + 1)) / (real tf + k1 e * (1 - b e + x)))"
proof -
  have "0 \<le> k1 e * (1 - b e + x)" using assms by simp
  then have "0 \<le> real tf + k1 e * (1 - b e + x)" by simp
  moreover have "0 \<le> real tf * (k1 e + 1)" using assms by simp
  ultimately show ?thesis using assms(5) by simp
qed


section \<open>A built engine at a token of an indexed document\<close>

text \<open>A token of an indexed document has a positive idf, and the corpus a positive
  average length; every round of the loop of \<open>score\<close> then adds a finite number that
  is not negative.\<close>

lemma total_len_ge: "d \<in> set ds \<Longrightarrow> length (tokenize d) \<le> total_len ds"
  unfolding total_len_def by (induction ds) auto

lemma built_avgLen:
  assumes "ds \<noteq> []"
  shows "avgLen (SparseEngine_init e ds) = Fin (real (total_len ds) / real (length ds))"
  using assms by (simp add: SparseEngine_init_avgLen js_of_nat_def)

lemma built_idf_token:
  assumes "d \<in> set ds" and "q \<in> set (tokenize d)"
  shows "\<exists>r. map_of (idf (SparseEngine_init e ds)) q = Some (Fin r) \<and> 0 < r"
proof -
  have pos: "0 < doc_count ds q" using assms by (auto simp: doc_count_pos)
  obtain r where "idf_value (length ds) (doc_count ds q) = Fin r" "0 < r"
    using idf_value_pos [OF doc_count_le [of ds q]] by blast
  then show ?thesis using pos by (simp add: SparseEngine_init_idf)
qed

lemma built_idf_or0_token:
  assumes "d \<in> set ds" and "q \<in> set (tokenize d)"
  shows "\<exists>r. idf_or0 (SparseEngine_init e ds) q = Fin r \<and> 0 < r"
proof -
  obtain r where "map_of (idf (SparseEngine_init e ds)) q = Some (Fin r)" "0 < r"
    using built_idf_token [OF assms] by blast
  then show ?thesis by (simp add: idf_or0_def js_or_def js_truthy_def)
qed

lemma score_loop_nonneg:
  assumes d: "d \<in> set ds" and r0: "0 \<le> r0"
  defines "e \<equiv> SparseEngine_init SparseEngine_new ds"
  shows "\<exists>r. foldl (\<lambda>score q.
                  let tf = get_or0 (term_freq (tokenize d)) q
                  in if tf = 0 then score
                     else js_add score
                            (bm25_term e (idf_or0 e q) tf
                               (js_div (js_mul (Fin (b e)) (js_of_nat (length (tokenize d)))) (avgLen e))))
               (Fin r0) qs = Fin r \<and> 0 \<le> r \<and> ((\<forall>q \<in> set qs. q \<notin> set (tokenize d)) \<longrightarrow> r = r0)"
  using r0
proof (induction qs arbitrary: r0)
  case Nil
  then show ?case by simp
next
  case (Cons q qs)
  show ?case
  proof (cases "q \<in> set (tokenize d)")
    case False
    then have "get_or0 (term_freq (tokenize d)) q = 0" by (simp add: get_or0_term_freq)
    then show ?thesis using Cons.IH [OF Cons.prems] False by simp
  next
    case True
    let ?tf = "get_or0 (term_freq (tokenize d)) q"
    have "count_list (tokenize d) q \<noteq> 0" using True by (simp add: count_list_0_iff)
    then have tf: "0 < ?tf" by (simp add: get_or0_term_freq)
    have ne: "ds \<noteq> []" using d by auto
    have len: "0 < length (tokenize d)" using True by (cases "tokenize d") auto
    have tl: "0 < total_len ds" using len total_len_ge [OF d] by (rule less_le_trans)
    have k: "k1 e = 12 / 10" "b e = 75 / 100"
      by (simp_all add: e_def SparseEngine_init_fields SparseEngine_new_def)
    define a where "a = real (total_len ds) / real (length ds)"
    have a: "avgLen e = Fin a" "0 < a" using ne tl by (simp_all add: a_def e_def built_avgLen)
    define x where "x = b e * real (length (tokenize d)) / a"
    have x: "js_div (js_mul (Fin (b e)) (js_of_nat (length (tokenize d)))) (avgLen e) = Fin x" "0 \<le> x"
      using a k by (simp_all add: x_def js_of_nat_def)
    obtain v where v: "idf_or0 e q = Fin v" "0 < v"
      using built_idf_or0_token [OF d True] unfolding e_def by blast
    define t where "t = v * ((real ?tf * (k1 e + 1)) / (real ?tf + k1 e * (1 - b e + x)))"
    have t: "bm25_term e (Fin v) ?tf (Fin x) = Fin t"
      unfolding t_def using k tf x(2) by (intro bm25_term_Fin) simp_all
    have t0: "0 \<le> t" unfolding t_def using k tf x(2) v(2) by (intro bm25_term_nonneg) simp_all
    have r1: "0 \<le> r0 + t" using Cons.prems t0 by simp
    show ?thesis using Cons.IH [OF r1] tf True by (simp add: x v t) blast
  qed
qed

lemma SparseEngine_score_nonneg:
  assumes "d \<in> set ds"
  shows "\<exists>r. SparseEngine_score (SparseEngine_init SparseEngine_new ds) qs d = Fin r \<and> 0 \<le> r \<and>
             ((\<forall>q \<in> set qs. q \<notin> set (tokenize d)) \<longrightarrow> r = 0)"
  using score_loop_nonneg [OF assms, of 0 qs] by (simp add: SparseEngine_score_def Let_def)


section \<open>The engine with cached frequencies\<close>

text \<open>Its \<open>init\<close> builds the statistics of the demo and, at every index, the frequency
  map of the document; its \<open>score\<close> returns a number at every index of the corpus. On
  the reals, where \<open>b * (len / avgLen)\<close> and \<open>(b * len) / avgLen\<close> are one number, it
  runs the loop of the demo.\<close>

lemma opt_init_loop:
  "foldl opt_init_doc (df, tot, fr) (zip ds [n..<n + length ds]) =
     (fst (foldl init_doc (df, tot) ds), snd (foldl init_doc (df, tot) ds),
      (\<lambda>k. if n \<le> k \<and> k < n + length ds then Some (term_freq (tokenize (ds ! (k - n)))) else fr k))"
proof (induction ds arbitrary: df tot fr n)
  case Nil
  show ?case by (auto simp: fun_eq_iff)
next
  case (Cons d ds)
  have z: "zip (d # ds) [n..<n + length (d # ds)] = (d, n) # zip ds [Suc n..<Suc n + length ds]"
  proof -
    have "[n..<n + length (d # ds)] = n # [Suc n..<Suc n + length ds]"
      by (simp add: upt_conv_Cons del: upt_Suc)
    then show ?thesis by (simp del: upt_Suc)
  qed
  have s: "opt_init_doc (df, tot, fr) (d, n) =
             (fst (init_doc (df, tot) d), snd (init_doc (df, tot) d), fr(n \<mapsto> term_freq (tokenize d)))"
    by (simp add: opt_init_doc_def init_doc_def Let_def)
  let ?df = "fst (init_doc (df, tot) d)" and ?tot = "snd (init_doc (df, tot) d)"
  let ?fr = "fr(n \<mapsto> term_freq (tokenize d))"
  have i: "foldl init_doc (df, tot) (d # ds) = foldl init_doc (?df, ?tot) ds"
    by simp
  have f: "(\<lambda>k. if Suc n \<le> k \<and> k < Suc n + length ds
                then Some (term_freq (tokenize (ds ! (k - Suc n)))) else ?fr k) =
           (\<lambda>k. if n \<le> k \<and> k < n + length (d # ds)
                then Some (term_freq (tokenize ((d # ds) ! (k - n)))) else fr k)"
    by (auto simp: fun_eq_iff nth_Cons')
  have "foldl opt_init_doc (df, tot, fr) (zip (d # ds) [n..<n + length (d # ds)]) =
        foldl opt_init_doc (opt_init_doc (df, tot, fr) (d, n)) (zip ds [Suc n..<Suc n + length ds])"
    by (simp only: z foldl_Cons)
  also have "\<dots> = foldl opt_init_doc (?df, ?tot, ?fr) (zip ds [Suc n..<Suc n + length ds])"
    by (simp only: s)
  also have "\<dots> = (fst (foldl init_doc (?df, ?tot) ds), snd (foldl init_doc (?df, ?tot) ds),
      (\<lambda>k. if Suc n \<le> k \<and> k < Suc n + length ds
            then Some (term_freq (tokenize (ds ! (k - Suc n)))) else ?fr k))"
    by (rule Cons.IH)
  finally show ?case
    by (simp only: i f)
qed

lemma SparseEngineOpt_init_stats:
  "idf (SparseEngineOpt_init SparseEngineOpt_new ds) = idf (SparseEngine_init SparseEngine_new ds)"
  "avgLen (SparseEngineOpt_init SparseEngineOpt_new ds) = avgLen (SparseEngine_init SparseEngine_new ds)"
  "k1 (SparseEngineOpt_init SparseEngineOpt_new ds) = 12 / 10"
  "b (SparseEngineOpt_init SparseEngineOpt_new ds) = 75 / 100"
  "docs (SparseEngineOpt_init SparseEngineOpt_new ds) = ds"
  "docFreqs (SparseEngineOpt_init SparseEngineOpt_new ds) =
     (\<lambda>k. if k < length ds then Some (term_freq (tokenize (ds ! k))) else None)"
  using opt_init_loop [of "[]" 0 Map.empty ds 0]
  by (simp_all add: SparseEngineOpt_init_def SparseEngine_init_def SparseEngineOpt_new_def
        SparseEngine_new_def split: prod.splits cong: if_cong)

lemma scores_agree_loop:
  assumes i: "i < length ds"
  defines "d \<equiv> ds ! i"
  defines "e \<equiv> SparseEngine_init SparseEngine_new ds"
  defines "e' \<equiv> SparseEngineOpt_init SparseEngineOpt_new ds"
  shows "foldl (\<lambda>score q.
                  let tf = get_or0 (term_freq (tokenize d)) q
                  in if tf = 0 then score
                     else let lenFactor = js_div (js_of_nat (sum_list (map snd (term_freq (tokenize d)))))
                                                 (js_or (avgLen e') (Fin 1))
                          in js_add score
                               (bm25_term e' (idf_or0 e' q) tf (js_mul (Fin (b e')) lenFactor)))
               acc qs
       = foldl (\<lambda>score q.
                  let tf = get_or0 (term_freq (tokenize d)) q
                  in if tf = 0 then score
                     else js_add score
                            (bm25_term e (idf_or0 e q) tf
                               (js_div (js_mul (Fin (b e)) (js_of_nat (length (tokenize d)))) (avgLen e))))
               acc qs"
proof (induction qs arbitrary: acc)
  case Nil
  show ?case by simp
next
  case (Cons q qs)
  have din: "d \<in> set ds" using i by (simp add: d_def)
  have st: "idf e' = idf e" "avgLen e' = avgLen e" "k1 e' = k1 e" "b e' = b e" "b e = 75 / 100"
    by (simp_all add: e_def e'_def SparseEngineOpt_init_stats SparseEngine_init_fields SparseEngine_new_def)
  have io: "idf_or0 e' q = idf_or0 e q" by (simp add: idf_or0_def st)
  have bt: "\<And>v tf x. bm25_term e' v tf x = bm25_term e v tf x" by (simp add: bm25_term_def st)
  show ?case
  proof (cases "get_or0 (term_freq (tokenize d)) q = 0")
    case True
    then show ?thesis using Cons.IH by simp
  next
    case False
    then have "count_list (tokenize d) q \<noteq> 0" by (simp add: get_or0_term_freq)
    then have qin: "q \<in> set (tokenize d)" by (simp add: count_list_0_iff)
    have ne: "ds \<noteq> []" using i by auto
    have len: "0 < length (tokenize d)" using qin by (cases "tokenize d") auto
    have tl: "0 < total_len ds" using len total_len_ge [OF din] by (rule less_le_trans)
    define a where "a = real (total_len ds) / real (length ds)"
    have a: "avgLen e = Fin a" "0 < a" using ne tl by (simp_all add: a_def e_def built_avgLen)
    have rel: "js_mul (Fin (b e')) (js_div (js_of_nat (sum_list (map snd (term_freq (tokenize d)))))
                                          (js_or (avgLen e') (Fin 1)))
             = js_div (js_mul (Fin (b e)) (js_of_nat (length (tokenize d)))) (avgLen e)"
      using a by (simp add: st sum_snd_term_freq js_or_def js_truthy_def js_of_nat_def)
    show ?thesis using False Cons.IH by (simp add: rel io bt Let_def)
  qed
qed

lemma opt_score_eq:
  assumes "i < length ds"
  shows "SparseEngineOpt_score (SparseEngineOpt_init SparseEngineOpt_new ds) qs i =
         Inr (SparseEngine_score (SparseEngine_init SparseEngine_new ds) qs (ds ! i))"
proof (cases "qs = []")
  case True
  then show ?thesis by (simp add: SparseEngineOpt_score_def SparseEngine_score_def)
next
  case False
  have f: "docFreqs (SparseEngineOpt_init SparseEngineOpt_new ds) i = Some (term_freq (tokenize (ds ! i)))"
    using assms by (simp add: SparseEngineOpt_init_stats)
  show ?thesis
    using False scores_agree_loop [OF assms, of "Fin 0" qs]
    by (simp add: SparseEngineOpt_score_def SparseEngine_score_def f Let_def)
qed

lemma opt_score_returns:
  "i < length ds \<Longrightarrow> \<exists>s. SparseEngineOpt_score (SparseEngineOpt_init SparseEngineOpt_new ds) qs i = Inr s"
  by (simp add: SparseEngineOpt_score_def SparseEngineOpt_init_stats)


section \<open>Tokens of some documents\<close>

text \<open>Evaluations of the tokenizer, and the result of the loop of \<open>search\<close>.\<close>

lemma tok_empty: "tokenize [] = []"
  by (simp add: tokenize_def field_def toLowerCase_def is_space_def)

lemma itok_empty: "itemToTokens [] = []"
  by (simp add: itemToTokens_def field_def toLowerCase_def is_space_def)

lemma tok_boston: "tokenize [(''city'', ''Boston'')] = [''boston'']"
  by code_simp

lemma tok_cambridge: "tokenize [(''city'', ''Cambridge'')] = [''cambridge'']"
  by code_simp

lemma lower_boston: "toLowerCase ''boston'' = ''boston''"
  by code_simp

lemma total_len_pos_iff: "0 < total_len ds \<longleftrightarrow> (\<exists>d \<in> set ds. tokenize d \<noteq> [])"
  unfolding total_len_def by (induction ds) auto

lemma search_loop_hits:
  assumes "\<And>i. i \<in> set is \<Longrightarrow> SparseEngineOpt_score e tokens i = Inr (sc i)"
  shows "search_loop e tokens is acc =
           Inr (acc @ map (\<lambda>i. (docs e ! i, sc i)) (filter (\<lambda>i. js_gt (sc i) (Fin 0)) is))"
  using assms by (induction "is" arbitrary: acc) simp_all


section \<open>The engine and the ranking of the benchmark\<close>

text \<open>The loop of its \<open>init\<close> over the tokens of a document, with the set \<open>seen\<close>, counts
  like the loop of the demo over the set of the tokens. On finite scores the comparison
  function orders by decreasing score, and the insertion is that of \<open>sort_key\<close>.\<close>

lemma itemToTokens_eq: "itemToTokens d = tokenize d"
  by (simp add: itemToTokens_def tokenize_def)

lemma foldl_Set_news:
  "foldl (\<lambda>s x. if x \<in> set s then s else s @ [x]) seen ts = seen @ news seen ts"
  by (induction ts arbitrary: seen) simp_all

lemma js_Set_news: "js_Set ts = news [] ts"
  by (simp add: js_Set_def foldl_Set_news)

lemma bench_token_loop:
  "fst (snd (foldl bench_token (seen, df, voc) ts)) = foldl bump df (news seen ts)"
  by (induction ts arbitrary: seen df voc) (simp_all add: bench_token_def)

lemma bench_init_doc_stats:
  "fst (bench_init_doc (df, tot, voc) d) = fst (init_doc (df, tot) d) \<and>
   fst (snd (bench_init_doc (df, tot, voc) d)) = snd (init_doc (df, tot) d)"
  using bench_token_loop [of "[]" df voc "tokenize d"]
  by (auto simp: bench_init_doc_def init_doc_def Let_def itemToTokens_eq js_Set_news split: prod.splits)

lemma bench_init_loop:
  "fst (foldl bench_init_doc (df, tot, voc) ds) = fst (foldl init_doc (df, tot) ds) \<and>
   fst (snd (foldl bench_init_doc (df, tot, voc) ds)) = snd (foldl init_doc (df, tot) ds)"
proof (induction ds arbitrary: df tot voc)
  case Nil
  show ?case by simp
next
  case (Cons d ds)
  obtain df' tot' voc' where b: "bench_init_doc (df, tot, voc) d = (df', tot', voc')"
    by (cases "bench_init_doc (df, tot, voc) d")
  have i: "init_doc (df, tot) d = (df', tot')"
    using bench_init_doc_stats [of df tot voc d] b by (simp add: prod_eq_iff)
  show ?case using Cons.IH [of df' tot' voc'] by (simp add: b i)
qed

lemma SparseEngineBench_init_stats:
  "idf (SparseEngineBench_init SparseEngineBench_new ds) = idf (SparseEngine_init SparseEngine_new ds)"
  "avgLen (SparseEngineBench_init SparseEngineBench_new ds) = avgLen (SparseEngine_init SparseEngine_new ds)"
  "k1 (SparseEngineBench_init SparseEngineBench_new ds) = 12 / 10"
  "b (SparseEngineBench_init SparseEngineBench_new ds) = 75 / 100"
  "docs (SparseEngineBench_init SparseEngineBench_new ds) = ds"
  using bench_init_loop [of "[]" 0 "[]" ds]
  by (auto simp: SparseEngineBench_init_def SparseEngine_init_def SparseEngineBench_new_def
        SparseEngine_new_def split: prod.splits)

lemma bm25_term_Fin':
  assumes "0 < k1 e" and "b e < 1" and "0 \<le> x"
  shows "bm25_term e (Fin r) tf (Fin x) =
           Fin (r * ((real tf * (k1 e + 1)) / (real tf + k1 e * (1 - b e + x))))"
proof -
  have "0 < 1 - b e + x" using assms by simp
  then have "0 < k1 e * (1 - b e + x)" using assms(1) by simp
  then have "0 < real tf + k1 e * (1 - b e + x)" by (simp add: add_nonneg_pos)
  then have nz: "real tf + k1 e * (1 - b e + x) \<noteq> 0" by simp
  show ?thesis using nz by (simp add: bm25_term_def js_of_nat_def js_sub_def)
qed

lemma built_idf_or0_any:
  assumes "idf e = idf (SparseEngine_init SparseEngine_new ds)"
  shows "\<exists>v. idf_or0 e t = Fin v"
proof (cases "0 < doc_count ds t")
  case True
  obtain r where "idf_value (length ds) (doc_count ds t) = Fin r" "0 < r"
    using idf_value_pos [OF doc_count_le [of ds t]] by blast
  then show ?thesis using True
    by (simp add: idf_or0_def assms SparseEngine_init_idf js_or_def js_truthy_def)
next
  case False
  then show ?thesis
    by (simp add: idf_or0_def assms SparseEngine_init_idf SparseEngine_new_def)
qed

lemma scoreDoc_loop_finite:
  assumes tl: "0 < total_len ds"
  defines "e \<equiv> SparseEngineBench_init SparseEngineBench_new ds"
  shows "\<exists>r. foldl (\<lambda>score t.
                  let tf = get_or0 freq t
                  in js_add score
                       (bm25_term e (idf_or0 e t) tf
                          (js_div (js_mul (Fin (b e)) (js_of_nat n)) (avgLen e))))
               (Fin r0) qs = Fin r"
proof (induction qs arbitrary: r0)
  case Nil
  show ?case by simp
next
  case (Cons q qs)
  have ne: "ds \<noteq> []" using tl by (auto simp: total_len_def)
  have k: "k1 e = 12 / 10" "b e = 75 / 100"
    by (simp_all add: e_def SparseEngineBench_init_stats)
  define a where "a = real (total_len ds) / real (length ds)"
  have a: "avgLen e = Fin a" "0 < a"
    using ne tl by (simp_all add: a_def e_def SparseEngineBench_init_stats built_avgLen)
  define x where "x = b e * real n / a"
  have x: "js_div (js_mul (Fin (b e)) (js_of_nat n)) (avgLen e) = Fin x" "0 \<le> x"
    using a k by (simp_all add: x_def js_of_nat_def)
  obtain v where v: "idf_or0 e q = Fin v"
    using built_idf_or0_any [of e ds q] by (auto simp: e_def SparseEngineBench_init_stats)
  define t where "t = v * ((real (get_or0 freq q) * (k1 e + 1)) / (real (get_or0 freq q) + k1 e * (1 - b e + x)))"
  have t: "bm25_term e (Fin v) (get_or0 freq q) (Fin x) = Fin t"
    unfolding t_def using k x(2) by (intro bm25_term_Fin') simp_all
  show ?case using Cons.IH [of "r0 + t"] by (simp add: x v t)
qed

lemma scoreDoc_finite:
  assumes "0 < total_len ds" and "i < length ds"
  shows "\<exists>r. SparseEngineBench_scoreDoc (SparseEngineBench_init SparseEngineBench_new ds) qs i = Inr (Fin r)"
  using scoreDoc_loop_finite [OF assms(1), of _ _ 0 qs] assms(2)
  by (simp add: SparseEngineBench_scoreDoc_def SparseEngineBench_init_stats Let_def)

lemma rank_map_scores:
  assumes "\<And>i. i \<in> set is \<Longrightarrow> SparseEngineBench_scoreDoc e tokens i = Inr (g i)"
  shows "rank_map e tokens is = Inr (map (\<lambda>i. (i, g i)) is)"
  using assms by (induction "is") simp_all

lemma js_insert_insort:
  "js_insert (\<lambda>a b. js_sub (snd b) (snd a)) (i, Fin (sc i)) (map (\<lambda>j. (j, Fin (sc j))) js) =
   map (\<lambda>j. (j, Fin (sc j))) (insort_key (\<lambda>j. - sc j) i js)"
  by (induction js) (auto simp: js_sub_def)

lemma js_sort_sort_key:
  "js_sort (\<lambda>a b. js_sub (snd b) (snd a)) (map (\<lambda>j. (j, Fin (sc j))) js) =
   map (\<lambda>j. (j, Fin (sc j :: real))) (sort_key (\<lambda>j. - sc j) js)"
  by (induction js) (simp_all add: js_sort_def js_insert_insort)

lemma bench_ranked_sorted:
  assumes "\<exists>d \<in> set ds. tokenize d \<noteq> []"
  shows "\<exists>sc. (\<forall>i < length ds.
                 SparseEngineBench_scoreDoc (SparseEngineBench_init SparseEngineBench_new ds) qs i = Inr (Fin (sc i))) \<and>
              bench_ranked (SparseEngineBench_init SparseEngineBench_new ds) qs =
                Inr (take 10 (map (\<lambda>i. (i, Fin (sc i))) (sort_key (\<lambda>i. - sc i) [0..<length ds])))"
proof -
  let ?e = "SparseEngineBench_init SparseEngineBench_new ds"
  have tl: "0 < total_len ds" using assms by (simp add: total_len_pos_iff)
  have "\<forall>i. \<exists>r. i < length ds \<longrightarrow> SparseEngineBench_scoreDoc ?e qs i = Inr (Fin r)"
    using scoreDoc_finite [OF tl] by blast
  then have "\<exists>sc. \<forall>i. i < length ds \<longrightarrow> SparseEngineBench_scoreDoc ?e qs i = Inr (Fin (sc i))"
    by (rule choice)
  then obtain sc where sc: "\<forall>i. i < length ds \<longrightarrow> SparseEngineBench_scoreDoc ?e qs i = Inr (Fin (sc i))"
    by blast
  have "rank_map ?e qs [0..<length ds] = Inr (map (\<lambda>i. (i, Fin (sc i))) [0..<length ds])"
    by (rule rank_map_scores) (use sc in simp)
  then have "bench_ranked ?e qs =
               Inr (take 10 (map (\<lambda>i. (i, Fin (sc i))) (sort_key (\<lambda>i. - sc i) [0..<length ds])))"
    by (simp add: bench_ranked_def SparseEngineBench_init_stats js_sort_sort_key)
  then show ?thesis using sc by blast
qed


section \<open>Invariants of a run\<close>

text \<open>A property that holds before a run and that every event preserves holds after every
  sequence of events. Each of the three invariants is preserved by a step of the main
  flow and by the settlement of a unit.\<close>

lemma exec_invariant:
  assumes "exec dataset fn evs s0 = Some s" and "P s0"
    and "\<And>s ev s'. P s \<Longrightarrow> step dataset fn ev s = Some s' \<Longrightarrow> P s'"
  shows "P s"
  using assms(1,2)
proof (induction evs arbitrary: s0)
  case Nil
  then show ?case by simp
next
  case (Cons ev evs)
  then obtain s1 where 1: "step dataset fn ev s0 = Some s1" and 2: "exec dataset fn evs s1 = Some s"
    by (auto split: option.splits)
  have "P s1" using assms(3) [OF Cons.prems(2) 1] .
  then show ?case using Cons.IH [OF 2] by simp
qed

lemma pending_count_append [simp]:
  "pending_count (ps @ [(t, p)]) = pending_count ps + (if p = Pending then 1 else 0)"
  by (simp add: pending_count_def)

lemma pending_count_Nil [simp]: "pending_count [] = 0"
  by (simp add: pending_count_def)

lemma pending_count_settle:
  assumes "k < length ps" and "snd (ps ! k) = Pending" and "q \<noteq> Pending"
  shows "int (pending_count (ps[k := (t, q)])) = int (pending_count ps) - 1"
  using assms
proof (induction ps arbitrary: k)
  case Nil
  then show ?case by simp
next
  case (Cons p ps)
  show ?case
  proof (cases k)
    case 0
    then show ?thesis using Cons.prems by (simp add: pending_count_def)
  next
    case (Suc j)
    then have "int (pending_count (ps[j := (t, q)])) = int (pending_count ps) - 1"
      using Cons.prems by (intro Cons.IH) simp_all
    then show ?thesis using Suc by (simp add: pending_count_def)
  qed
qed

lemma all_fulfilled_no_pending: "all_fulfilled ps \<Longrightarrow> pending_count ps = 0"
  by (induction ps) (auto simp: all_fulfilled_def pending_count_def)

lemma all_fulfilled_nth: "all_fulfilled ps \<Longrightarrow> k < length ps \<Longrightarrow> snd (ps ! k) = Fulfilled"
  by (simp add: all_fulfilled_def list_all_length)

lemma all_fulfilled_Nil [simp]: "all_fulfilled []"
  by (simp add: all_fulfilled_def)

lemma main_step_fields:
  "main_step dataset s = Some s' \<Longrightarrow> maxConcurrency s' = maxConcurrency s \<and> pulseSize s' = pulseSize s"
  by (auto simp: main_step_def split: pc.splits list.splits option.splits promise.splits if_splits)

lemma settle_step_fields:
  "settle_step fn k s = Some s' \<Longrightarrow> maxConcurrency s' = maxConcurrency s \<and> pulseSize s' = pulseSize s"
  by (auto simp: settle_step_def Let_def split: sum.splits if_splits)

lemma step_fields:
  "step dataset fn ev s = Some s' \<Longrightarrow> maxConcurrency s' = maxConcurrency s \<and> pulseSize s' = pulseSize s"
  by (cases ev) (auto dest: main_step_fields settle_step_fields)

lemma main_step_bounded: "main_step dataset s = Some s' \<Longrightarrow> bounded s \<Longrightarrow> bounded s'"
  by (auto simp: main_step_def bounded_def split: pc.splits list.splits option.splits promise.splits if_splits)

lemma settle_step_bounded: "settle_step fn k s = Some s' \<Longrightarrow> bounded s \<Longrightarrow> bounded s'"
  by (auto simp: settle_step_def bounded_def Let_def split: sum.splits if_splits)

lemma step_bounded: "step dataset fn ev s = Some s' \<Longrightarrow> bounded s \<Longrightarrow> bounded s'"
  by (cases ev) (auto dest: main_step_bounded settle_step_bounded)

lemma exec_bounded:
  assumes "exec dataset fn evs s0 = Some s" and "bounded s0"
  shows "bounded s \<and> maxConcurrency s = maxConcurrency s0"
proof -
  have "bounded s \<and> maxConcurrency s = maxConcurrency s0"
    using assms(1)
  proof (rule exec_invariant [where P = "\<lambda>s. bounded s \<and> maxConcurrency s = maxConcurrency s0"])
    show "bounded s0 \<and> maxConcurrency s0 = maxConcurrency s0" using assms(2) by simp
  next
    fix s ev s'
    assume "bounded s \<and> maxConcurrency s = maxConcurrency s0" "step dataset fn ev s = Some s'"
    then show "bounded s' \<and> maxConcurrency s' = maxConcurrency s0"
      using step_bounded step_fields by metis
  qed
  then show ?thesis .
qed

lemma settle_stepE:
  assumes "settle_step fn k s = Some s'"
  obtains (fulfil) r where "k < length (inflight s)" "snd (inflight s ! k) = Pending"
      "fn (data (fst (inflight s ! k))) = Inr r"
      "s' = s\<lparr>results := results s @ [(task_id (fst (inflight s ! k)), r)],
              active := active s - 1,
              inflight := (inflight s)[k := (fst (inflight s ! k), Fulfilled)],
              pc := pc_fulfil s ((inflight s)[k := (fst (inflight s ! k), Fulfilled)])\<rparr>"
  | (reject) e where "k < length (inflight s)" "snd (inflight s ! k) = Pending"
      "fn (data (fst (inflight s ! k))) = Inl e"
      "s' = s\<lparr>active := active s - 1,
              inflight := (inflight s)[k := (fst (inflight s ! k), Rejected e)],
              pc := pc_reject s e\<rparr>"
proof -
  have k: "k < length (inflight s)" "snd (inflight s ! k) = Pending"
    using assms by (simp_all add: settle_step_def split: if_splits)
  show thesis
  proof (cases "fn (data (fst (inflight s ! k)))")
    case (Inr r)
    then show thesis using assms k fulfil [of r]
      by (simp add: settle_step_def Let_def pc_fulfil_def)
  next
    case (Inl e)
    then show thesis using assms k reject [of e]
      by (simp add: settle_step_def Let_def pc_reject_def)
  qed
qed

lemma main_step_counted: "main_step dataset s = Some s' \<Longrightarrow> counted s \<Longrightarrow> counted s'"
  by (auto simp: main_step_def counted_def at_barrier_def all_fulfilled_no_pending
      split: pc.splits list.splits option.splits promise.splits if_splits)

lemma at_barrier_pc_fulfil: "\<not> at_barrier (pc s) \<Longrightarrow> at_barrier (pc_fulfil s fl) \<Longrightarrow> all_fulfilled fl"
  by (simp add: at_barrier_def pc_fulfil_def split: pc.splits if_splits)

lemma at_barrier_pc_reject: "\<not> at_barrier (pc s) \<Longrightarrow> \<not> at_barrier (pc_reject s e)"
  by (simp add: at_barrier_def pc_reject_def split: pc.splits)

lemma settle_step_counted:
  assumes "settle_step fn k s = Some s'" and "counted s"
  shows "counted s'"
  using assms(1)
proof (cases rule: settle_stepE)
  case (fulfil r)
  have nb: "\<not> at_barrier (pc s)"
    using assms(2) fulfil(1,2) all_fulfilled_nth [of "inflight s" k] by (auto simp: counted_def)
  have a: "active s = int (pending_count (inflight s))" using assms(2) by (simp add: counted_def)
  show ?thesis
    using a at_barrier_pc_fulfil [OF nb] fulfil(1,2)
    by (simp add: fulfil(4) counted_def pending_count_settle)
next
  case (reject e)
  have nb: "\<not> at_barrier (pc s)"
    using assms(2) reject(1,2) all_fulfilled_nth [of "inflight s" k] by (auto simp: counted_def)
  have a: "active s = int (pending_count (inflight s))" using assms(2) by (simp add: counted_def)
  show ?thesis
    using a at_barrier_pc_reject [OF nb] reject(1,2)
    by (simp add: reject(4) counted_def pending_count_settle)
qed

lemma step_counted: "step dataset fn ev s = Some s' \<Longrightarrow> counted s \<Longrightarrow> counted s'"
  by (cases ev) (auto dest: main_step_counted settle_step_counted)

lemma exec_counted:
  assumes "exec dataset fn evs s0 = Some s" and "counted s0"
  shows "counted s"
  using assms(1,2) step_counted by (rule exec_invariant [where P = counted])

lemma set_slice_js: "set (slice_js xs i j) \<subseteq> set xs"
proof -
  have "set (take n (drop m xs)) \<subseteq> set xs" for n m
    using set_take_subset set_drop_subset by fast
  then show ?thesis by (simp add: slice_js_def Let_def)
qed

lemma data_tasks_of: "t \<in> set (tasks_of dataset) \<Longrightarrow> data t \<in> set dataset"
  by (auto simp: tasks_of_def enumerate_eq_zip dest: set_zip_rightD)

lemma first_settled_mem: "first_settled ps = Some p \<Longrightarrow> \<exists>t. (t, p) \<in> set ps"
  by (induction ps rule: first_settled.induct) auto

lemma first_rejected_mem: "first_rejected ps = Some e \<Longrightarrow> \<exists>t. (t, Rejected e) \<in> set ps"
  by (induction ps rule: first_rejected.induct) auto

lemma own_failure_Failed:
  assumes "own_failure dataset fn s" and "(t, Rejected e) \<in> set (inflight s)"
  shows "own_failure dataset fn (s\<lparr>pc := Failed e\<rparr>)"
proof -
  have "data t \<in> set dataset" "fn (data t) = Inl e"
    using assms by (auto simp: own_failure_def)
  then show ?thesis using assms(1) by (auto simp: own_failure_def)
qed

lemma own_failure_pc:
  assumes "own_failure dataset fn s" and "set (todo_of c) \<subseteq> set (todo_of (pc s))"
    and "\<And>e. c \<noteq> Failed e"
  shows "own_failure dataset fn (s\<lparr>pc := c\<rparr>)"
  using assms by (auto simp: own_failure_def)

lemma main_step_own_failure:
  assumes "main_step dataset s = Some s'" and "own_failure dataset fn s"
  shows "own_failure dataset fn s'"
proof (cases "pc s")
  case (AtLoop i)
  have sl: "\<forall>t \<in> set (slice_js (tasks_of dataset) i (i + pulseSize s)). data t \<in> set dataset"
    using set_slice_js data_tasks_of by fast
  show ?thesis
  proof (cases "i < int (length dataset)")
    case True
    then have "s' = s\<lparr>inflight := [], pc := InPulse i (slice_js (tasks_of dataset) i (i + pulseSize s))\<rparr>"
      using assms(1) AtLoop by (simp add: main_step_def)
    then show ?thesis using sl by (simp add: own_failure_def)
  next
    case False
    then have "s' = s\<lparr>pc := Returned\<rparr>" using assms(1) AtLoop by (simp add: main_step_def)
    then show ?thesis using assms(2) by (simp add: own_failure_pc)
  qed
next
  case (InPulse i todo)
  show ?thesis
  proof (cases todo)
    case Nil
    show ?thesis
    proof (cases "first_rejected (inflight s)")
      case (Some e)
      then have "s' = s\<lparr>pc := Failed e\<rparr>" using assms(1) InPulse Nil by (simp add: main_step_def)
      then show ?thesis using own_failure_Failed [OF assms(2)] first_rejected_mem [OF Some] by blast
    next
      case None
      then have "s' = s\<lparr>pc := AtLoop (i + pulseSize s)\<rparr> \<or> s' = s\<lparr>pc := AwaitAll i\<rparr>"
        using assms(1) InPulse Nil by (simp add: main_step_def split: if_splits)
      then show ?thesis using assms(2) by (auto simp: own_failure_pc)
    qed
  next
    case (Cons t todo')
    show ?thesis
    proof (cases "maxConcurrency s \<le> active s")
      case False
      then have "s' = s\<lparr>active := active s + 1, inflight := inflight s @ [(t, Pending)],
                         pc := InPulse i todo'\<rparr>"
        using assms(1) InPulse Cons by (simp add: main_step_def)
      then show ?thesis using assms(2) InPulse Cons by (auto simp: own_failure_def)
    next
      case True
      show ?thesis
      proof (cases "first_settled (inflight s)")
        case None
        then have "s' = s\<lparr>pc := AwaitRace i (t # todo')\<rparr>"
          using assms(1) InPulse Cons True by (simp add: main_step_def)
        then show ?thesis using assms(2) InPulse Cons by (simp add: own_failure_pc)
      next
        case (Some p)
        show ?thesis
        proof (cases p)
          case (Rejected e)
          then have "s' = s\<lparr>pc := Failed e\<rparr>"
            using assms(1) InPulse Cons True Some by (simp add: main_step_def)
          then show ?thesis
            using own_failure_Failed [OF assms(2)] first_settled_mem [OF Some] Rejected by blast
        qed (use assms InPulse Cons True Some in \<open>simp_all add: main_step_def\<close>)
      qed
    qed
  qed
qed (use assms in \<open>simp_all add: main_step_def\<close>)

lemma own_failure_settle:
  assumes o: "own_failure dataset fn s" and k: "k < length (inflight s)"
    and q: "\<And>e. q = Rejected e \<Longrightarrow> fn (data (fst (inflight s ! k))) = Inl e"
    and td: "set (todo_of c) \<subseteq> set (todo_of (pc s))"
    and nf: "\<And>e. c = Failed e \<Longrightarrow> pc s = Failed e \<or> q = Rejected e"
  shows "own_failure dataset fn
           (s\<lparr>active := a, inflight := (inflight s)[k := (fst (inflight s ! k), q)], pc := c\<rparr>)"
proof -
  let ?t = "fst (inflight s ! k)"
  have m: "inflight s ! k \<in> set (inflight s)" using k by simp
  then have d: "data ?t \<in> set dataset" using o by (simp add: own_failure_def)
  have 1: "data (fst x) \<in> set dataset \<and> (\<forall>e. snd x = Rejected e \<longrightarrow> fn (data (fst x)) = Inl e)"
    if "x \<in> set ((inflight s)[k := (?t, q)])" for x
  proof -
    have "x = (?t, q) \<or> x \<in> set (inflight s)"
      using that set_update_subset_insert [of "inflight s" k "(?t, q)"] by blast
    then show ?thesis
    proof
      assume "x = (?t, q)"
      then show ?thesis using d q by simp
    next
      assume "x \<in> set (inflight s)"
      then show ?thesis using o by (simp add: own_failure_def)
    qed
  qed
  have 2: "data t \<in> set dataset" if "t \<in> set (todo_of c)" for t
    using that td o by (auto simp: own_failure_def)
  have 3: "\<exists>d \<in> set dataset. fn d = Inl e" if "c = Failed e" for e
  proof -
    from nf [OF that] show ?thesis
    proof
      assume "pc s = Failed e"
      then show ?thesis using o by (simp add: own_failure_def)
    next
      assume "q = Rejected e"
      then show ?thesis using q d by blast
    qed
  qed
  show ?thesis
    unfolding own_failure_def using 1 2 3 by simp
qed

lemma own_failure_results:
  "own_failure dataset fn (s\<lparr>results := rs\<rparr>) = own_failure dataset fn s"
  by (simp add: own_failure_def)

lemma settle_step_own_failure:
  assumes "settle_step fn k s = Some s'" and "own_failure dataset fn s"
  shows "own_failure dataset fn s'"
  using assms(1)
proof (cases rule: settle_stepE)
  case (fulfil r)
  let ?s = "s\<lparr>results := results s @ [(task_id (fst (inflight s ! k)), r)]\<rparr>"
  let ?fl = "(inflight s)[k := (fst (inflight s ! k), Fulfilled)]"
  have o: "own_failure dataset fn ?s" using assms(2) by (simp add: own_failure_results)
  have td: "set (todo_of (pc_fulfil s ?fl)) \<subseteq> set (todo_of (pc ?s))"
    by (simp add: pc_fulfil_def split: pc.splits)
  have nf: "pc_fulfil s ?fl = Failed e \<Longrightarrow> pc ?s = Failed e \<or> Fulfilled = Rejected e" for e
    by (simp add: pc_fulfil_def split: pc.splits if_splits)
  have "own_failure dataset fn
          (?s\<lparr>active := active s - 1, inflight := (inflight ?s)[k := (fst (inflight ?s ! k), Fulfilled)],
               pc := pc_fulfil s ?fl\<rparr>)"
    using o _ _ td nf by (rule own_failure_settle) (use fulfil(1) in simp_all)
  then show ?thesis by (simp add: fulfil(4))
next
  case (reject e)
  have td: "set (todo_of (pc_reject s e)) \<subseteq> set (todo_of (pc s))"
    by (simp add: pc_reject_def split: pc.splits)
  have nf: "pc_reject s e = Failed e' \<Longrightarrow> pc s = Failed e' \<or> Rejected e = Rejected e'" for e'
    by (simp add: pc_reject_def split: pc.splits)
  have "own_failure dataset fn
          (s\<lparr>active := active s - 1, inflight := (inflight s)[k := (fst (inflight s ! k), Rejected e)],
              pc := pc_reject s e\<rparr>)"
    using assms(2) reject(1) _ td nf by (rule own_failure_settle) (use reject(3) in simp_all)
  then show ?thesis by (simp add: reject(4))
qed

lemma step_own_failure:
  "step dataset fn ev s = Some s' \<Longrightarrow> own_failure dataset fn s \<Longrightarrow> own_failure dataset fn s'"
  by (cases ev) (auto dest: main_step_own_failure settle_step_own_failure)

lemma exec_own_failure:
  assumes "exec dataset fn evs s0 = Some s" and "own_failure dataset fn s0"
  shows "own_failure dataset fn s"
  using assms(1,2) step_own_failure by (rule exec_invariant [where P = "own_failure dataset fn"])


section \<open>The records of a run that returns\<close>































section \<open>Rounding to doubles\<close>

text \<open>A real between two powers of two, nearer to one multiple of the unit in the last
  place than to every other, is rounded to that multiple; half way between two of them
  it is rounded to the even one. A positive number is rounded to a positive number.\<close>

lemma pow2_powr: "pow2 e = 2 powr real_of_int e"
  by (simp add: pow2_def powr_int)

lemma pow2_pos: "0 < pow2 e"
  by (simp add: pow2_powr)

lemma floor_log2:
  assumes "pow2 k \<le> x" and "x < pow2 (k + 1)"
  shows "\<lfloor>log 2 x\<rfloor> = k"
proof -
  have "0 < x" using assms(1) pow2_pos [of k] by linarith
  then show ?thesis using assms by (simp add: floor_log_eq_powr_iff pow2_powr)
qed

lemma round_even_eq:
  assumes "real_of_int m - 1 / 2 < q" and "q < real_of_int m + 1 / 2"
  shows "round_even q = m"
proof -
  consider "real_of_int m \<le> q" | "q < real_of_int m" by linarith
  then show ?thesis
  proof cases
    case 1
    then have "\<lfloor>q\<rfloor> = m" using assms(2) by linarith
    then show ?thesis using assms by (simp add: round_even_def)
  next
    case 2
    then have "\<lfloor>q\<rfloor> = m - 1" using assms(1) by linarith
    then show ?thesis using assms 2 by (simp add: round_even_def)
  qed
qed

lemma round_double_eq:
  assumes "pow2 (e + 52) \<le> x" and "x < pow2 (e + 53)"
    and "(real_of_int m - 1 / 2) * pow2 e < x" and "x < (real_of_int m + 1 / 2) * pow2 e"
  shows "round_double x = real_of_int m * pow2 e"
proof -
  have x: "0 < x" using assms(1) pow2_pos [of "e + 52"] by linarith
  have "\<lfloor>log 2 x\<rfloor> = e + 52" using assms(1,2) by (intro floor_log2) (simp_all add: add.commute add.left_commute)
  then have e: "\<lfloor>log 2 \<bar>x\<bar>\<rfloor> - 52 = e" using x by simp
  have "round_even (x / pow2 e) = m"
    by (rule round_even_eq) (use assms(3,4) pow2_pos [of e] in \<open>simp_all add: field_simps\<close>)
  then show ?thesis using x e by (simp add: round_double_def)
qed

lemma round_even_tie:
  assumes "q = real_of_int f + 1 / 2"
  shows "round_even q = (if even f then f else f + 1)"
proof -
  have "\<lfloor>q\<rfloor> = f" unfolding assms by linarith
  then show ?thesis using assms by (simp add: round_even_def)
qed

lemma round_double_tie:
  assumes "pow2 (e + 52) \<le> x" and "x < pow2 (e + 53)"
    and "x = (real_of_int f + 1 / 2) * pow2 e" and "m = (if even f then f else f + 1)"
  shows "round_double x = real_of_int m * pow2 e"
proof -
  have x: "0 < x" using assms(1) pow2_pos [of "e + 52"] by linarith
  have "\<lfloor>log 2 x\<rfloor> = e + 52" using assms(1,2) by (intro floor_log2) (simp_all add: add.commute add.left_commute)
  then have e: "\<lfloor>log 2 \<bar>x\<bar>\<rfloor> - 52 = e" using x by simp
  have "x / pow2 e = real_of_int f + 1 / 2" using assms(3) pow2_pos [of e] by simp
  then have "round_even (x / pow2 e) = m" unfolding assms(4) by (rule round_even_tie)
  then show ?thesis using x e by (simp add: round_double_def)
qed

lemma exp_Taylor_bounds:
  fixes x :: real
  assumes "0 \<le> x" and "x \<le> 1"
  shows "(\<Sum>m<n. x ^ m / fact m) \<le> exp x"
    and "exp x \<le> (\<Sum>m<n. x ^ m / fact m) + 3 * x ^ n / fact n"
proof -
  obtain t where t: "\<bar>t\<bar> \<le> \<bar>x\<bar>" and e: "exp x = (\<Sum>m<n. x ^ m / fact m) + exp t / fact n * x ^ n"
    using Maclaurin_exp_le [of x n] by blast
  have "0 \<le> exp t / fact n * x ^ n" using assms(1) by simp
  then show "(\<Sum>m<n. x ^ m / fact m) \<le> exp x" using e by linarith
  have "t \<le> 1" using t assms by linarith
  then have "exp t \<le> exp 1" by simp
  then have "exp t \<le> 3" using exp_le by linarith
  then have "exp t * x ^ n \<le> 3 * x ^ n" using assms(1) by (intro mult_right_mono) simp_all
  then have "exp t / fact n * x ^ n \<le> 3 * x ^ n / fact n"
    by (simp add: divide_right_mono)
  then show "exp x \<le> (\<Sum>m<n. x ^ m / fact m) + 3 * x ^ n / fact n" using e by linarith
qed

lemma round_even_ge_floor: "\<lfloor>q\<rfloor> \<le> round_even q"
  by (simp add: round_even_def Let_def)

lemma round_double_pos:
  assumes "0 < x"
  shows "0 < round_double x"
proof -
  define k where "k = \<lfloor>log 2 x\<rfloor>"
  have "pow2 k \<le> x"
    using assms floor_log_eq_powr_iff [of x 2 k] by (simp add: k_def pow2_powr)
  then have "pow2 k / pow2 (k - 52) \<le> x / pow2 (k - 52)"
    using pow2_pos [of "k - 52"] by (simp add: divide_right_mono)
  moreover have "pow2 k / pow2 (k - 52) = 2 powr 52"
    by (simp add: pow2_powr flip: powr_diff)
  ultimately have "1 \<le> x / pow2 (k - 52)" by simp
  then have "1 \<le> \<lfloor>x / pow2 (k - 52)\<rfloor>" by linarith
  then have "1 \<le> round_even (x / pow2 (k - 52))" using round_even_ge_floor [of "x / pow2 (k - 52)"] by linarith
  then have "0 < real_of_int (round_even (x / pow2 (k - 52))) * pow2 (k - 52)"
    using pow2_pos [of "k - 52"] by simp
  then show ?thesis using assms by (simp add: round_double_def k_def Let_def)
qed

text \<open>The logarithm of \<open>2\<close> to the precision of a double, from the series of the
  exponential function.\<close>

lemma sum_upto_17: "(\<Sum>m<(17::nat). f m) = f 0 + f 1 + f 2 + f 3 + f 4 + f 5 + f 6 + f 7 + f 8 + f 9 + f 10 + f 11 + f 12 + f 13 + f 14 + f 15 + (f 16 :: real)"
  by (simp add: lessThan_nat_numeral lessThan_Suc pred_numeral_simps)

lemma exp_term_up:
  fixes x :: real
  assumes "x ^ k / fact k \<le> a" and "0 \<le> x" and "a * x / real k' \<le> c" and "k' = Suc k"
  shows "x ^ k' / fact k' \<le> c"
proof -
  have "x ^ k' / fact k' = (x ^ k / fact k) * x / real k'"
    unfolding assms(4) by (simp add: field_simps)
  also have "\<dots> \<le> a * x / real k'"
    using assms(1,2) by (intro divide_right_mono mult_right_mono) simp_all
  finally show ?thesis using assms(3) by linarith
qed

lemma exp_term_low:
  fixes x :: real
  assumes "a \<le> x ^ k / fact k" and "0 \<le> x" and "c \<le> a * x / real k'" and "k' = Suc k"
  shows "c \<le> x ^ k' / fact k'"
proof -
  have "a * x / real k' \<le> (x ^ k / fact k) * x / real k'"
    using assms(1,2) by (intro divide_right_mono mult_right_mono) simp_all
  also have "\<dots> = x ^ k' / fact k'"
    unfolding assms(4) by (simp add: field_simps)
  finally show ?thesis using assms(3) by linarith
qed

lemma ln2_lower: "12486629536330717 / 18014398509481984 < ln (2::real)"
proof -
  let ?L = "12486629536330717 / 18014398509481984 :: real"
  have t0: "?L ^ 0 / fact 0 \<le> 1" by simp
  have t1: "?L ^ 1 / fact 1 \<le> 12486629536330717 / 18014398509481984"
    by (rule exp_term_up [OF t0]) simp_all
  have t2: "?L ^ 2 / fact 2 \<le> 1134437604760508523153 / 4722366482869645213696"
    by (rule exp_term_up [OF t1]) simp_all
  have t3: "?L ^ 3 / fact 3 \<le> 32763842802538499355 / 590295810358705651712"
    by (rule exp_term_up [OF t2]) simp_all
  have t4: "?L ^ 4 / fact 4 \<le> 22710165262888815187 / 2361183241434822606848"
    by (rule exp_term_up [OF t3]) simp_all
  have t5: "?L ^ 5 / fact 5 \<le> 1574148702202178963 / 1180591620717411303424"
    by (rule exp_term_up [OF t4]) simp_all
  have t6: "?L ^ 6 / fact 6 \<le> 727411156475691465 / 4722366482869645213696"
    by (rule exp_term_up [OF t5]) simp_all
  have t7: "?L ^ 7 / fact 7 \<le> 18007249722106239 / 1180591620717411303424"
    by (rule exp_term_up [OF t6]) simp_all
  have t8: "?L ^ 8 / fact 8 \<le> 6240837187258399 / 4722366482869645213696"
    by (rule exp_term_up [OF t7]) simp_all
  have t9: "?L ^ 9 / fact 9 \<le> 120161630574495 / 1180591620717411303424"
    by (rule exp_term_up [OF t8]) simp_all
  have t10: "?L ^ 10 / fact 10 \<le> 33315878177679 / 4722366482869645213696"
    by (rule exp_term_up [OF t9]) simp_all
  have t11: "?L ^ 11 / fact 11 \<le> 524836523335 / 1180591620717411303424"
    by (rule exp_term_up [OF t10]) simp_all
  have t12: "?L ^ 12 / fact 12 \<le> 121262985469 / 4722366482869645213696"
    by (rule exp_term_up [OF t11]) simp_all
  have t13: "?L ^ 13 / fact 13 \<le> 6465622807 / 4722366482869645213696"
    by (rule exp_term_up [OF t12]) simp_all
  have t14: "?L ^ 14 / fact 14 \<le> 160058151 / 2361183241434822606848"
    by (rule exp_term_up [OF t13]) simp_all
  have t15: "?L ^ 15 / fact 15 \<le> 14792515 / 4722366482869645213696"
    by (rule exp_term_up [OF t14]) simp_all
  have t16: "?L ^ 16 / fact 16 \<le> 640837 / 4722366482869645213696"
    by (rule exp_term_up [OF t15]) simp_all
  have t17: "?L ^ 17 / fact 17 \<le> 13065 / 2361183241434822606848"
    by (rule exp_term_up [OF t16]) simp_all
  have "exp ?L \<le> (\<Sum>m<17. ?L ^ m / fact m) + 3 * ?L ^ 17 / fact 17"
    by (rule exp_Taylor_bounds) simp_all
  also have "\<dots> < 2"
    unfolding sum_upto_17 using t0 t1 t2 t3 t4 t5 t6 t7 t8 t9 t10 t11 t12 t13 t14 t15 t16 t17 by linarith
  finally have "exp ?L < 2" .
  then have "ln (exp ?L) < ln 2" by (subst ln_less_cancel_iff) simp_all
  then show ?thesis by simp
qed

lemma ln2_upper: "ln (2::real) < 12486629536330719 / 18014398509481984"
proof -
  let ?U = "12486629536330719 / 18014398509481984 :: real"
  have t0: "1 \<le> ?U ^ 0 / fact 0" by simp
  have t1: "12486629536330719 / 18014398509481984 \<le> ?U ^ 1 / fact 1"
    by (rule exp_term_low [OF t0]) simp_all
  have t2: "1134437604760508886561 / 4722366482869645213696 \<le> ?U ^ 2 / fact 2"
    by (rule exp_term_low [OF t1]) simp_all
  have t3: "262110742420308120787 / 4722366482869645213696 \<le> ?U ^ 3 / fact 3"
    by (rule exp_term_low [OF t2]) simp_all
  have t4: "45420330525777659473 / 4722366482869645213696 \<le> ?U ^ 4 / fact 4"
    by (rule exp_term_low [OF t3]) simp_all
  have t5: "6296594808808720893 / 4722366482869645213696 \<le> ?U ^ 5 / fact 5"
    by (rule exp_term_low [OF t4]) simp_all
  have t6: "727411156475692163 / 4722366482869645213696 \<le> ?U ^ 6 / fact 6"
    by (rule exp_term_low [OF t5]) simp_all
  have t7: "72028998888425035 / 4722366482869645213696 \<le> ?U ^ 7 / fact 7"
    by (rule exp_term_low [OF t6]) simp_all
  have t8: "3120418593629203 / 2361183241434822606848 \<le> ?U ^ 8 / fact 8"
    by (rule exp_term_low [OF t7]) simp_all
  have t9: "120161630574495 / 1180591620717411303424 \<le> ?U ^ 9 / fact 9"
    by (rule exp_term_low [OF t8]) simp_all
  have t10: "16657939088839 / 2361183241434822606848 \<le> ?U ^ 10 / fact 10"
    by (rule exp_term_low [OF t9]) simp_all
  have t11: "2099346093339 / 4722366482869645213696 \<le> ?U ^ 11 / fact 11"
    by (rule exp_term_low [OF t10]) simp_all
  have t12: "30315746367 / 1180591620717411303424 \<le> ?U ^ 12 / fact 12"
    by (rule exp_term_low [OF t11]) simp_all
  have t13: "3232811403 / 2361183241434822606848 \<le> ?U ^ 13 / fact 13"
    by (rule exp_term_low [OF t12]) simp_all
  have t14: "320116301 / 4722366482869645213696 \<le> ?U ^ 14 / fact 14"
    by (rule exp_term_low [OF t13]) simp_all
  have t15: "7396257 / 2361183241434822606848 \<le> ?U ^ 15 / fact 15"
    by (rule exp_term_low [OF t14]) simp_all
  have t16: "160209 / 1180591620717411303424 \<le> ?U ^ 16 / fact 16"
    by (rule exp_term_low [OF t15]) simp_all
  have "2 < (\<Sum>m<17. ?U ^ m / fact m)"
    unfolding sum_upto_17 using t0 t1 t2 t3 t4 t5 t6 t7 t8 t9 t10 t11 t12 t13 t14 t15 t16 by linarith
  also have "\<dots> \<le> exp ?U"
    by (rule exp_Taylor_bounds) simp_all
  finally have "2 < exp ?U" .
  then have "ln 2 < ln (exp ?U)" by (subst ln_less_cancel_iff) simp_all
  then show ?thesis by simp
qed

text \<open>The roundings met on the corpus of the two documents \<open>x x x x x x\<close> and \<open>y\<close>.\<close>

lemma round_double_val_1: "round_double (7 / 2) = 7 / 2"
proof -
  have "round_double (7 / 2) = real_of_int 7881299347898368 * pow2 (-51)"
    by (rule round_double_eq) (simp_all add: pow2_def)
  also have "\<dots> = 7 / 2" by (simp add: pow2_def)
  finally show ?thesis .
qed

lemma round_double_val_2: "round_double (1) = 1"
proof -
  have "round_double (1) = real_of_int 4503599627370496 * pow2 (-52)"
    by (rule round_double_eq) (simp_all add: pow2_def)
  also have "\<dots> = 1" by (simp add: pow2_def)
  finally show ?thesis .
qed

lemma round_double_val_3: "round_double (3 / 2) = 3 / 2"
proof -
  have "round_double (3 / 2) = real_of_int 6755399441055744 * pow2 (-52)"
    by (rule round_double_eq) (simp_all add: pow2_def)
  also have "\<dots> = 3 / 2" by (simp add: pow2_def)
  finally show ?thesis .
qed

lemma round_double_val_4: "round_double (2) = 2"
proof -
  have "round_double (2) = real_of_int 4503599627370496 * pow2 (-51)"
    by (rule round_double_eq) (simp_all add: pow2_def)
  also have "\<dots> = 2" by (simp add: pow2_def)
  finally show ?thesis .
qed

lemma round_double_val_5: "round_double (3 / 4) = 3 / 4"
proof -
  have "round_double (3 / 4) = real_of_int 6755399441055744 * pow2 (-53)"
    by (rule round_double_eq) (simp_all add: pow2_def)
  also have "\<dots> = 3 / 4" by (simp add: pow2_def)
  finally show ?thesis .
qed

lemma round_double_val_6: "round_double (6 / 5) = 5404319552844595 / 4503599627370496"
proof -
  have "round_double (6 / 5) = real_of_int 5404319552844595 * pow2 (-52)"
    by (rule round_double_eq) (simp_all add: pow2_def)
  also have "\<dots> = 5404319552844595 / 4503599627370496" by (simp add: pow2_def)
  finally show ?thesis .
qed

lemma round_double_val_7: "round_double (9 / 2) = 9 / 2"
proof -
  have "round_double (9 / 2) = real_of_int 5066549580791808 * pow2 (-50)"
    by (rule round_double_eq) (simp_all add: pow2_def)
  also have "\<dots> = 9 / 2" by (simp add: pow2_def)
  finally show ?thesis .
qed

lemma round_double_val_8: "round_double (9 / 7) = 5790342378047781 / 4503599627370496"
proof -
  have "round_double (9 / 7) = real_of_int 5790342378047781 * pow2 (-52)"
    by (rule round_double_eq) (simp_all add: pow2_def)
  also have "\<dots> = 5790342378047781 / 4503599627370496" by (simp add: pow2_def)
  finally show ?thesis .
qed

lemma round_double_val_9: "round_double (9907919180215091 / 4503599627370496) = 2476979795053773 / 1125899906842624"
proof -
  have "round_double (9907919180215091 / 4503599627370496) = real_of_int 4953959590107546 * pow2 (-51)"
    by (rule round_double_tie [where f = 4953959590107545]) (simp_all add: pow2_def)
  also have "\<dots> = 2476979795053773 / 1125899906842624" by (simp add: pow2_def)
  finally show ?thesis .
qed

lemma round_double_val_10: "round_double (7430939385161319 / 562949953421312) = 7430939385161319 / 562949953421312"
proof -
  have "round_double (7430939385161319 / 562949953421312) = real_of_int 7430939385161319 * pow2 (-49)"
    by (rule round_double_eq) (simp_all add: pow2_def)
  also have "\<dots> = 7430939385161319 / 562949953421312" by (simp add: pow2_def)
  finally show ?thesis .
qed

lemma round_double_val_11: "round_double (1 / 4) = 1 / 4"
proof -
  have "round_double (1 / 4) = real_of_int 4503599627370496 * pow2 (-54)"
    by (rule round_double_eq) (simp_all add: pow2_def)
  also have "\<dots> = 1 / 4" by (simp add: pow2_def)
  finally show ?thesis .
qed

lemma round_double_val_12: "round_double (6916242284890405 / 4503599627370496) = 6916242284890405 / 4503599627370496"
proof -
  have "round_double (6916242284890405 / 4503599627370496) = real_of_int 6916242284890405 * pow2 (-52)"
    by (rule round_double_eq) (simp_all add: pow2_def)
  also have "\<dots> = 6916242284890405 / 4503599627370496" by (simp add: pow2_def)
  finally show ?thesis .
qed

lemma round_double_val_13: "round_double (37377583412443793571305571610975 / 20282409603651670423947251286016) = 4149745370934243 / 2251799813685248"
proof -
  have "round_double (37377583412443793571305571610975 / 20282409603651670423947251286016) = real_of_int 8299490741868486 * pow2 (-52)"
    by (rule round_double_eq) (simp_all add: pow2_def)
  also have "\<dots> = 4149745370934243 / 2251799813685248" by (simp add: pow2_def)
  finally show ?thesis .
qed

lemma round_double_val_14: "round_double (17660544253045731 / 2251799813685248) = 4415136063261433 / 562949953421312"
proof -
  have "round_double (17660544253045731 / 2251799813685248) = real_of_int 8830272126522866 * pow2 (-50)"
    by (rule round_double_tie [where f = 8830272126522865]) (simp_all add: pow2_def)
  also have "\<dots> = 4415136063261433 / 562949953421312" by (simp add: pow2_def)
  finally show ?thesis .
qed

lemma round_double_val_15: "round_double (7430939385161319 / 4415136063261433) = 1894957220259717 / 1125899906842624"
proof -
  have "round_double (7430939385161319 / 4415136063261433) = real_of_int 7579828881038868 * pow2 (-52)"
    by (rule round_double_eq) (simp_all add: pow2_def)
  also have "\<dots> = 1894957220259717 / 1125899906842624" by (simp add: pow2_def)
  finally show ?thesis .
qed

lemma round_double_val_16: "round_double (11830814398289068172585582543403 / 10141204801825835211973625643008) = 656742127252367 / 562949953421312"
proof -
  have "round_double (11830814398289068172585582543403 / 10141204801825835211973625643008) = real_of_int 5253937018018936 * pow2 (-52)"
    by (rule round_double_eq) (simp_all add: pow2_def)
  also have "\<dots> = 656742127252367 / 562949953421312" by (simp add: pow2_def)
  finally show ?thesis .
qed

lemma round_double_val_17: "round_double (656742127252367 / 562949953421312) = 656742127252367 / 562949953421312"
proof -
  have "round_double (656742127252367 / 562949953421312) = real_of_int 5253937018018936 * pow2 (-52)"
    by (rule round_double_eq) (simp_all add: pow2_def)
  also have "\<dots> = 656742127252367 / 562949953421312" by (simp add: pow2_def)
  finally show ?thesis .
qed

lemma round_double_val_18: "round_double (12 / 7) = 7720456504063707 / 4503599627370496"
proof -
  have "round_double (12 / 7) = real_of_int 7720456504063707 * pow2 (-52)"
    by (rule round_double_eq) (simp_all add: pow2_def)
  also have "\<dots> = 7720456504063707 / 4503599627370496" by (simp add: pow2_def)
  finally show ?thesis .
qed

lemma round_double_val_19: "round_double (23161369512191121 / 18014398509481984) = 1447585594511945 / 1125899906842624"
proof -
  have "round_double (23161369512191121 / 18014398509481984) = real_of_int 5790342378047780 * pow2 (-52)"
    by (rule round_double_eq) (simp_all add: pow2_def)
  also have "\<dots> = 1447585594511945 / 1125899906842624" by (simp add: pow2_def)
  finally show ?thesis .
qed

lemma round_double_val_20: "round_double (1729060571222601 / 1125899906842624) = 1729060571222601 / 1125899906842624"
proof -
  have "round_double (1729060571222601 / 1125899906842624) = real_of_int 6916242284890404 * pow2 (-52)"
    by (rule round_double_eq) (simp_all add: pow2_def)
  also have "\<dots> = 1729060571222601 / 1125899906842624" by (simp add: pow2_def)
  finally show ?thesis .
qed

lemma round_double_val_21: "round_double (9344395853110947041746504691595 / 5070602400912917605986812821504) = 2074872685467121 / 1125899906842624"
proof -
  have "round_double (9344395853110947041746504691595 / 5070602400912917605986812821504) = real_of_int 8299490741868484 * pow2 (-52)"
    by (rule round_double_eq) (simp_all add: pow2_def)
  also have "\<dots> = 2074872685467121 / 1125899906842624" by (simp add: pow2_def)
  finally show ?thesis .
qed

lemma round_double_val_22: "round_double (8830272126522865 / 1125899906842624) = 8830272126522865 / 1125899906842624"
proof -
  have "round_double (8830272126522865 / 1125899906842624) = real_of_int 8830272126522865 * pow2 (-50)"
    by (rule round_double_eq) (simp_all add: pow2_def)
  also have "\<dots> = 8830272126522865 / 1125899906842624" by (simp add: pow2_def)
  finally show ?thesis .
qed

lemma round_double_val_23: "round_double (14861878770322638 / 8830272126522865) = 7579828881038869 / 4503599627370496"
proof -
  have "round_double (14861878770322638 / 8830272126522865) = real_of_int 7579828881038869 * pow2 (-52)"
    by (rule round_double_eq) (simp_all add: pow2_def)
  also have "\<dots> = 7579828881038869 / 4503599627370496" by (simp add: pow2_def)
  finally show ?thesis .
qed

lemma round_double_val_24: "round_double (47323257593156278933657098338971 / 40564819207303340847894502572032) = 5253937018018937 / 4503599627370496"
proof -
  have "round_double (47323257593156278933657098338971 / 40564819207303340847894502572032) = real_of_int 5253937018018937 * pow2 (-52)"
    by (rule round_double_eq) (simp_all add: pow2_def)
  also have "\<dots> = 5253937018018937 / 4503599627370496" by (simp add: pow2_def)
  finally show ?thesis .
qed

lemma round_double_val_25: "round_double (5253937018018937 / 4503599627370496) = 5253937018018937 / 4503599627370496"
proof -
  have "round_double (5253937018018937 / 4503599627370496) = real_of_int 5253937018018937 * pow2 (-52)"
    by (rule round_double_eq) (simp_all add: pow2_def)
  also have "\<dots> = 5253937018018937 / 4503599627370496" by (simp add: pow2_def)
  finally show ?thesis .
qed

lemma round_double_val_26: "round_double (2 / 7) = 2573485501354569 / 9007199254740992"
proof -
  have "round_double (2 / 7) = real_of_int 5146971002709138 * pow2 (-54)"
    by (rule round_double_eq) (simp_all add: pow2_def)
  also have "\<dots> = 2573485501354569 / 9007199254740992" by (simp add: pow2_def)
  finally show ?thesis .
qed

lemma round_double_val_27: "round_double (7720456504063707 / 36028797018963968) = 7720456504063707 / 36028797018963968"
proof -
  have "round_double (7720456504063707 / 36028797018963968) = real_of_int 7720456504063707 * pow2 (-55)"
    by (rule round_double_eq) (simp_all add: pow2_def)
  also have "\<dots> = 7720456504063707 / 36028797018963968" by (simp add: pow2_def)
  finally show ?thesis .
qed

lemma round_double_val_28: "round_double (3 / 14) = 7720456504063707 / 36028797018963968"
proof -
  have "round_double (3 / 14) = real_of_int 7720456504063707 * pow2 (-55)"
    by (rule round_double_eq) (simp_all add: pow2_def)
  also have "\<dots> = 7720456504063707 / 36028797018963968" by (simp add: pow2_def)
  finally show ?thesis .
qed

lemmas double_values = round_double_val_1 round_double_val_2 round_double_val_3
  round_double_val_4 round_double_val_5 round_double_val_6 round_double_val_7
  round_double_val_8 round_double_val_9 round_double_val_10 round_double_val_11
  round_double_val_12 round_double_val_13 round_double_val_14 round_double_val_15
  round_double_val_16 round_double_val_17 round_double_val_18 round_double_val_19
  round_double_val_20 round_double_val_21 round_double_val_22 round_double_val_23
  round_double_val_24 round_double_val_25 round_double_val_26 round_double_val_27
  round_double_val_28

lemma round_double_ln2: "round_double (ln 2) = 6243314768165359 / 9007199254740992"
proof -
  have "round_double (ln 2) = real_of_int 6243314768165359 * pow2 (-53)"
    by (rule round_double_eq) (use ln2_lower ln2_upper in \<open>simp_all add: pow2_def\<close>)
  also have "\<dots> = 6243314768165359 / 9007199254740992" by (simp add: pow2_def)
  finally show ?thesis .
qed

lemma tok_six: "tokenize [(''city'', ''x x x x x x'')] = [''x'', ''x'', ''x'', ''x'', ''x'', ''x'']"
  by code_simp

lemma tok_y: "tokenize [(''city'', ''y'')] = [''y'']"
  by code_simp

lemma idf_double_2_1:
  "idf_value_double (Suc (Suc 0)) (Suc 0) = Fin (6243314768165359 / 9007199254740992)"
  by (simp add: idf_value_double_def dbl_log_def dbl_add_def dbl_sub_def dbl_div_def js_round_def
      js_of_nat_def js_sub_def double_values round_double_ln2)

lemma double_demo_engine:
  "SparseEngine_init_double SparseEngine_new [[(''city'', ''x x x x x x'')], [(''city'', ''y'')]] =
     \<lparr>docs = [[(''city'', ''x x x x x x'')], [(''city'', ''y'')]],
      idf = [(''x'', Fin (6243314768165359 / 9007199254740992)),
             (''y'', Fin (6243314768165359 / 9007199254740992))],
      avgLen = Fin (7 / 2), k1 = 12 / 10, b = 75 / 100\<rparr>"
  by (simp add: SparseEngine_init_double_def SparseEngine_new_def init_doc_def tok_six tok_y
      js_Set_def bump_def get_or0_def set_idf_double_def idf_double_2_1 dbl_div_def js_round_def
      js_of_nat_def double_values)

lemma double_demo_score:
  "SparseEngine_score_double
     (SparseEngine_init_double SparseEngine_new [[(''city'', ''x x x x x x'')], [(''city'', ''y'')]])
     [''x''] [(''city'', ''x x x x x x'')] =
   Fin (656742127252367 / 562949953421312)"
  unfolding double_demo_engine
  by (simp add: SparseEngine_score_double_def tok_six term_freq_def bump_def get_or0_def
      bm25_term_double_def idf_or0_def js_or_def js_truthy_def dbl_add_def dbl_sub_def dbl_mul_def
      dbl_div_def js_round_def js_of_nat_def js_sub_def double_values)

lemma double_cached_score:
  "SparseEngineOpt_score_double
     (SparseEngineOpt_init_double SparseEngineOpt_new [[(''city'', ''x x x x x x'')], [(''city'', ''y'')]])
     [''x''] 0 =
   Inr (Fin (5253937018018937 / 4503599627370496))"
  by (simp add: SparseEngineOpt_score_double_def SparseEngineOpt_init_double_def SparseEngineOpt_new_def
      opt_init_doc_def tok_six tok_y js_Set_def term_freq_def bump_def get_or0_def upt_rec
      set_idf_double_def idf_double_2_1
      bm25_term_double_def idf_or0_def js_or_def js_truthy_def dbl_add_def dbl_sub_def dbl_mul_def
      dbl_div_def js_round_def js_of_nat_def js_sub_def double_values)


section \<open>The two scorers on doubles\<close>

text \<open>The two variants of \<open>init\<close> build the same statistics on doubles too, and the
  average length is positive as soon as a document has a token. The two scorers then
  differ in the length term only.\<close>

lemma SparseEngine_init_double_fields:
  "docs (SparseEngine_init_double e ds) = ds"
  "k1 (SparseEngine_init_double e ds) = k1 e"
  "b (SparseEngine_init_double e ds) = b e"
  "avgLen (SparseEngine_init_double e ds) = dbl_div (js_of_nat (total_len ds)) (js_of_nat (length ds))"
proof -
  obtain df tot where f: "foldl init_doc ([], 0) ds = (df, tot)" by (cases "foldl init_doc ([], 0) ds")
  have t: "tot = total_len ds" using snd_foldl_init_doc [of "([], 0)" ds] f by simp
  show "docs (SparseEngine_init_double e ds) = ds" "k1 (SparseEngine_init_double e ds) = k1 e"
    "b (SparseEngine_init_double e ds) = b e"
    "avgLen (SparseEngine_init_double e ds) = dbl_div (js_of_nat (total_len ds)) (js_of_nat (length ds))"
    by (simp_all add: SparseEngine_init_double_def f t)
qed

lemma SparseEngineOpt_init_double_stats:
  "idf (SparseEngineOpt_init_double SparseEngineOpt_new ds) = idf (SparseEngine_init_double SparseEngine_new ds)"
  "avgLen (SparseEngineOpt_init_double SparseEngineOpt_new ds) = avgLen (SparseEngine_init_double SparseEngine_new ds)"
  "k1 (SparseEngineOpt_init_double SparseEngineOpt_new ds) = 12 / 10"
  "b (SparseEngineOpt_init_double SparseEngineOpt_new ds) = 75 / 100"
  "docs (SparseEngineOpt_init_double SparseEngineOpt_new ds) = ds"
  "docFreqs (SparseEngineOpt_init_double SparseEngineOpt_new ds) =
     (\<lambda>k. if k < length ds then Some (term_freq (tokenize (ds ! k))) else None)"
  using opt_init_loop [of "[]" 0 Map.empty ds 0]
  by (simp_all add: SparseEngineOpt_init_double_def SparseEngine_init_double_def SparseEngineOpt_new_def
        SparseEngine_new_def split: prod.splits cong: if_cong)

lemma double_avgLen_pos:
  assumes "ds \<noteq> []" and "0 < total_len ds"
  shows "\<exists>a. avgLen (SparseEngine_init_double SparseEngine_new ds) = Fin a \<and> 0 < a"
proof -
  have "0 < real (total_len ds) / real (length ds)" using assms by simp
  then have "0 < round_double (real (total_len ds) / real (length ds))" by (rule round_double_pos)
  then show ?thesis using assms(1)
    by (simp add: SparseEngine_init_double_fields dbl_div_def js_round_def js_of_nat_def)
qed

lemma double_scores_agree_loop:
  assumes i: "i < length ds"
  defines "d \<equiv> ds ! i"
  defines "e \<equiv> SparseEngine_init_double SparseEngine_new ds"
  defines "e' \<equiv> SparseEngineOpt_init_double SparseEngineOpt_new ds"
  assumes h: "dbl_mul (Fin (3 / 4)) (dbl_div (js_of_nat (length (tokenize d))) (avgLen e)) =
              dbl_div (dbl_mul (Fin (3 / 4)) (js_of_nat (length (tokenize d)))) (avgLen e)"
  shows "foldl (\<lambda>score q.
                  let tf = get_or0 (term_freq (tokenize d)) q
                  in if tf = 0 then score
                     else let lenFactor = dbl_div (js_of_nat (sum_list (map snd (term_freq (tokenize d)))))
                                                  (js_or (avgLen e') (Fin 1))
                          in dbl_add score
                               (bm25_term_double e' (idf_or0 e' q) tf (dbl_mul (js_round (Fin (b e'))) lenFactor)))
               acc qs
       = foldl (\<lambda>score q.
                  let tf = get_or0 (term_freq (tokenize d)) q
                  in if tf = 0 then score
                     else dbl_add score
                            (bm25_term_double e (idf_or0 e q) tf
                               (dbl_div (dbl_mul (js_round (Fin (b e))) (js_of_nat (length (tokenize d))))
                                        (avgLen e))))
               acc qs"
proof (induction qs arbitrary: acc)
  case Nil
  show ?case by simp
next
  case (Cons q qs)
  have din: "d \<in> set ds" using i by (simp add: d_def)
  have st: "idf e' = idf e" "avgLen e' = avgLen e" "k1 e' = k1 e" "b e' = b e" "b e = 3 / 4"
    by (simp_all add: e_def e'_def SparseEngineOpt_init_double_stats SparseEngine_init_double_fields
        SparseEngine_new_def)
  have b: "js_round (Fin (b e)) = Fin (3 / 4)" by (simp add: st js_round_def double_values)
  have io: "idf_or0 e' q = idf_or0 e q" by (simp add: idf_or0_def st)
  have bt: "\<And>v tf x. bm25_term_double e' v tf x = bm25_term_double e v tf x"
    by (simp add: bm25_term_double_def st)
  show ?case
  proof (cases "get_or0 (term_freq (tokenize d)) q = 0")
    case True
    then show ?thesis using Cons.IH by simp
  next
    case False
    then have "count_list (tokenize d) q \<noteq> 0" by (simp add: get_or0_term_freq)
    then have qin: "q \<in> set (tokenize d)" by (simp add: count_list_0_iff)
    have ne: "ds \<noteq> []" using i by auto
    have len: "0 < length (tokenize d)" using qin by (cases "tokenize d") auto
    have tl: "0 < total_len ds" using len total_len_ge [OF din] by (rule less_le_trans)
    obtain a where a: "avgLen e = Fin a" "0 < a"
      using double_avgLen_pos [OF ne tl] by (auto simp: e_def)
    have o: "js_or (avgLen e') (Fin 1) = avgLen e"
      using a by (simp add: st js_or_def js_truthy_def)
    have rel: "dbl_mul (js_round (Fin (b e'))) (dbl_div (js_of_nat (sum_list (map snd (term_freq (tokenize d)))))
                                          (js_or (avgLen e') (Fin 1)))
             = dbl_div (dbl_mul (js_round (Fin (b e))) (js_of_nat (length (tokenize d)))) (avgLen e)"
      unfolding o st(4) b sum_snd_term_freq by (rule h)
    show ?thesis using False Cons.IH by (simp add: rel io bt Let_def)
  qed
qed

lemma double_score_eq:
  assumes "i < length ds"
    and "dbl_mul (Fin (3 / 4))
           (dbl_div (js_of_nat (length (tokenize (ds ! i))))
                    (avgLen (SparseEngine_init_double SparseEngine_new ds))) =
         dbl_div (dbl_mul (Fin (3 / 4)) (js_of_nat (length (tokenize (ds ! i)))))
                 (avgLen (SparseEngine_init_double SparseEngine_new ds))"
  shows "SparseEngineOpt_score_double (SparseEngineOpt_init_double SparseEngineOpt_new ds) qs i =
         Inr (SparseEngine_score_double (SparseEngine_init_double SparseEngine_new ds) qs (ds ! i))"
proof (cases "qs = []")
  case True
  then show ?thesis by (simp add: SparseEngineOpt_score_double_def SparseEngine_score_double_def)
next
  case False
  have f: "docFreqs (SparseEngineOpt_init_double SparseEngineOpt_new ds) i = Some (term_freq (tokenize (ds ! i)))"
    using assms(1) by (simp add: SparseEngineOpt_init_double_stats)
  show ?thesis
    using False double_scores_agree_loop [OF assms, of "Fin 0" qs]
    by (simp add: SparseEngineOpt_score_double_def SparseEngine_score_double_def f Let_def)
qed


section \<open>Claims\<close>

subsection \<open>Runs used as evidence\<close>

text \<open>
  Two per-item functions: one doubles its item, as \<open>x => x * 2\<close>; the other throws
  on the item \<open>1\<close>.
\<close>

lemmas run_defs = run_start_def PlexRuntime_constructor_def main_step_def settle_step_def
  tasks_of_def slice_js_def all_fulfilled_def Let_def

lemma run_two_units_swapped:
  "exec [10, 20] (\<lambda>x. Inr (2 * x) :: string + int)
     [Main, Main, Main, Main, Settle 1, Settle 0, Main]
     (run_start (PlexRuntime_constructor None None))
   = Some \<lparr>pulseSize = 32, maxConcurrency = 8, active = 0,
           results = [(1, 40), (0, 20)],
           inflight = [(\<lparr>task_id = 0, data = 10\<rparr>, Fulfilled), (\<lparr>task_id = 1, data = 20\<rparr>, Fulfilled)],
           pc = Returned\<rparr>"
  by (simp add: run_defs)

lemma run_first_unit_fails:
  "exec [1, 2] (\<lambda>x. if x = 1 then Inl ''boom'' else Inr (2 * x) :: string + int)
     [Main, Main, Main, Main, Settle 0]
     (run_start (PlexRuntime_constructor None None))
   = Some \<lparr>pulseSize = 32, maxConcurrency = 8, active = 1,
           results = [],
           inflight = [(\<lparr>task_id = 0, data = 1\<rparr>, Rejected ''boom''), (\<lparr>task_id = 1, data = 2\<rparr>, Pending)],
           pc = Failed ''boom''\<rparr>"
  by (simp add: run_defs)

lemma run_negative_pulse_fails:
  "exec [1, 2] (\<lambda>x. if x = 1 then Inl ''boom'' else Inr (2 * x) :: string + int)
     [Main, Main, Settle 0, Main]
     (run_start (PlexRuntime_constructor (Some (- 1)) (Some 1)))
   = Some \<lparr>pulseSize = - 1, maxConcurrency = 1, active = 0,
           results = [],
           inflight = [(\<lparr>task_id = 0, data = 1\<rparr>, Rejected ''boom'')],
           pc = Failed ''boom''\<rparr>"
  by (simp add: run_defs)

lemma run_one_at_a_time:
  "exec [1, 2, 3, 4, 5] (\<lambda>x. Inr (2 * x) :: string + int)
     [Main, Main, Main]
     (run_start (PlexRuntime_constructor (Some 2) (Some 1)))
   = Some \<lparr>pulseSize = 2, maxConcurrency = 1, active = 1,
           results = [],
           inflight = [(\<lparr>task_id = 0, data = 1\<rparr>, Pending)],
           pc = AwaitRace 0 [\<lparr>task_id = 1, data = 2\<rparr>]\<rparr>"
  by (simp add: run_defs)



subsection \<open>C1: the order of the results\<close>





subsection \<open>C2: statistics of an empty corpus\<close>

text \<open>
  C2 says that building the statistics of an empty collection fails with an "empty
  corpus" error instead of giving \<open>NaN\<close> as average length. \<open>init\<close> has no such
  test: on a new engine and no document it returns, and the average length is
  \<open>0 / 0\<close>, that is \<open>NaN\<close>.
\<close>

theorem empty_corpus_gives_NaN:
  "SparseEngine_init SparseEngine_new [] =
     \<lparr>docs = [], idf = [], avgLen = NaN, k1 = 12 / 10, b = 75 / 100\<rparr>"
  by (simp add: SparseEngine_init_def set_idf_def js_of_nat_def SparseEngine_new_def)

text \<open>
  C2 as amended: on an empty collection \<open>init\<close> does not fail; it returns the engine
  with no document, the average length \<open>NaN\<close> and the \<open>idf\<close> table it had, in the
  demo and in the benchmark alike.
\<close>

theorem init_empty_corpus:
  "SparseEngine_init e [] = e\<lparr>docs := [], avgLen := NaN\<rparr> \<and>
   SparseEngineBench_init e' [] = e'\<lparr>docs := [], avgLen := NaN\<rparr>"
  by (simp add: SparseEngine_init_def SparseEngineBench_init_def set_idf_def js_of_nat_def)


subsection \<open>C3: options that are not positive\<close>

text \<open>
  C3 says that a \<open>pulseSize\<close> or \<open>maxConcurrency\<close> that is not positive makes the
  scheduler fail at once with an invalid-configuration error, before any unit starts.
  With \<open>pulseSize = -1\<close> and \<open>maxConcurrency = 1\<close> on the dataset \<open>[10, 20]\<close>
  the first pulse is \<open>tasks.slice(0, -1)\<close>, the task of index 0, and its unit is
  launched: after two steps of the main flow one unit is active and nothing has failed.
\<close>

theorem negative_pulseSize_starts_work:
  "map_option (\<lambda>s. (pc s, active s, map (task_id \<circ> fst) (inflight s)))
     (exec [10, 20] (\<lambda>x. Inr (2 * x) :: string + int)
        [Main, Main]
        (run_start (PlexRuntime_constructor (Some (- 1)) (Some 1))))
   = Some (InPulse 0 [], 1, [0])"
  by (simp add: run_defs)

text \<open>
  C3 as amended: no configuration is rejected. The constructor stores the two options as
  they are given, with \<open>active = 0\<close>, and whenever \<open>run\<close> fails, the error is one
  that the per-item function raised on an item of the dataset.
\<close>

theorem no_configuration_is_rejected:
  "pulseSize (PlexRuntime_constructor (Some p) (Some c)) = p \<and>
   maxConcurrency (PlexRuntime_constructor (Some p) (Some c)) = c \<and>
   active (PlexRuntime_constructor (Some p) (Some c)) = 0 \<and>
   (\<forall>evs s e. exec dataset fn evs (run_start (PlexRuntime_constructor (Some p) (Some c))) = Some s \<and>
              pc s = Failed e \<longrightarrow> (\<exists>d \<in> set dataset. fn d = Inl e))"
proof -
  let ?rt = "PlexRuntime_constructor (Some p) (Some c)"
  have o: "own_failure dataset fn (run_start ?rt)"
    by (simp add: own_failure_def run_start_def)
  have f: "\<exists>d \<in> set dataset. fn d = Inl e"
    if "exec dataset fn evs (run_start ?rt) = Some s" and "pc s = Failed e" for evs s e
    using exec_own_failure [OF that(1) o] that(2) by (simp add: own_failure_def)
  have c: "pulseSize ?rt = p" "maxConcurrency ?rt = c" "active ?rt = 0"
    by (simp_all add: PlexRuntime_constructor_def)
  show ?thesis using c f by blast
qed

theorem no_configuration_is_rejected_witness:
  "pulseSize (PlexRuntime_constructor (Some (- 1)) (Some 1)) = - 1 \<and>
   maxConcurrency (PlexRuntime_constructor (Some (- 1)) (Some 1)) = 1 \<and>
   active (PlexRuntime_constructor (Some (- 1)) (Some 1)) = 0 \<and>
   (\<exists>s. exec [1, 2] (\<lambda>x. if x = 1 then Inl ''boom'' else Inr (2 * x) :: string + int)
          [Main, Main, Settle 0, Main]
          (run_start (PlexRuntime_constructor (Some (- 1)) (Some 1))) = Some s \<and>
        pc s = Failed ''boom'') \<and>
   (\<exists>d \<in> set [1, 2]. (if d = 1 then Inl ''boom'' else Inr (2 * d) :: string + int) = Inl ''boom'')"
proof -
  let ?fn = "\<lambda>x. if x = 1 then Inl ''boom'' else Inr (2 * x) :: string + int"
  let ?rt = "PlexRuntime_constructor (Some (- 1)) (Some 1)"
  obtain s :: "(int, string, int) run_state"
    where r: "exec [1, 2] ?fn [Main, Main, Settle 0, Main] (run_start ?rt) = Some s"
      and f: "pc s = Failed ''boom''"
    using run_negative_pulse_fails by simp
  have t: "pulseSize ?rt = - 1 \<and> maxConcurrency ?rt = 1 \<and> active ?rt = 0 \<and>
           (\<forall>evs s e. exec [1, 2] ?fn evs (run_start ?rt) = Some s \<and> pc s = Failed e \<longrightarrow>
                      (\<exists>d \<in> set [1, 2]. ?fn d = Inl e))"
    by (rule no_configuration_is_rejected)
  then have "\<exists>d \<in> set [1, 2]. ?fn d = Inl ''boom''" using r f by blast
  then show ?thesis using t r f by blast
qed


subsection \<open>C4: the bound on the active units\<close>

text \<open>
  C4: with \<open>maxConcurrency = c\<close> and \<open>c \<ge> 1\<close>, at every moment of a run of a new
  runtime the counter \<open>active\<close>, which is the number of the units in flight that
  have not settled, is at most \<open>c\<close>, for every dataset, per-item function and order
  of events.
\<close>

theorem active_never_exceeds_maxConcurrency:
  assumes "1 \<le> maxConcurrency (PlexRuntime_constructor ps mc)"
    and "exec dataset fn evs (run_start (PlexRuntime_constructor ps mc)) = Some s"
  shows "active s \<le> maxConcurrency (PlexRuntime_constructor ps mc) \<and>
         int (pending_count (inflight s)) \<le> maxConcurrency (PlexRuntime_constructor ps mc)"
proof -
  let ?s0 = "run_start (PlexRuntime_constructor ps mc) :: ('a, 'b, 'c) run_state"
  have "bounded ?s0"
    using assms(1) by (simp add: bounded_def run_start_def PlexRuntime_constructor_def)
  from exec_bounded [OF assms(2) this]
  have 1: "active s \<le> maxConcurrency (PlexRuntime_constructor ps mc)"
    by (simp add: bounded_def run_start_def)
  have "counted ?s0"
    by (simp add: counted_def run_start_def PlexRuntime_constructor_def)
  from exec_counted [OF assms(2) this]
  have "active s = int (pending_count (inflight s))" by (simp add: counted_def)
  then show ?thesis using 1 by simp
qed

theorem active_never_exceeds_maxConcurrency_witness:
  "1 \<le> maxConcurrency (PlexRuntime_constructor (Some 2) (Some 1)) \<and>
   (\<exists>s. exec [1, 2, 3, 4, 5] (\<lambda>x. Inr (2 * x) :: string + int) [Main, Main, Main]
          (run_start (PlexRuntime_constructor (Some 2) (Some 1))) = Some s \<and>
        active s = 1 \<and>
        active s \<le> maxConcurrency (PlexRuntime_constructor (Some 2) (Some 1)) \<and>
        int (pending_count (inflight s)) \<le> maxConcurrency (PlexRuntime_constructor (Some 2) (Some 1)))"
proof -
  let ?rt = "PlexRuntime_constructor (Some 2) (Some 1)"
  have h: "1 \<le> maxConcurrency ?rt" by (simp add: PlexRuntime_constructor_def)
  obtain s :: "(int, string, int) run_state"
    where r: "exec [1, 2, 3, 4, 5] (\<lambda>x. Inr (2 * x)) [Main, Main, Main] (run_start ?rt) = Some s"
      and a: "active s = 1"
    using run_one_at_a_time by simp
  have "active s \<le> maxConcurrency ?rt \<and> int (pending_count (inflight s)) \<le> maxConcurrency ?rt"
    using h r by (rule active_never_exceeds_maxConcurrency)
  then show ?thesis using h r a by blast
qed


subsection \<open>C5: what \<open>search\<close> returns\<close>

text \<open>
  C5 says that \<open>search\<close> returns a pair for every document, those of score zero
  included, by non-increasing score. On the corpus of the two cities Cambridge and
  Boston, in this order, the query \<open>boston\<close> returns one pair only: the document of
  score zero is left out.
\<close>

theorem search_omits_zero_scores:
  "SparseEngineOpt_search
     (SparseEngineOpt_init SparseEngineOpt_new [[(''city'', ''Cambridge'')], [(''city'', ''Boston'')]])
     [''boston'']
   = Inr [([(''city'', ''Boston'')], Fin (ln 2))]"
  by (simp add: SparseEngineOpt_search_def SparseEngineOpt_init_def SparseEngineOpt_new_def
      opt_init_doc_def tok_boston tok_cambridge lower_boston js_Set_def bump_def get_or0_def
      set_idf_def term_freq_def js_of_nat_def upt_rec idf_value_def js_sub_def
      SparseEngineOpt_score_def bm25_term_def idf_or0_def js_or_def js_truthy_def)

text \<open>
  C5 as amended: for every engine built on a corpus and every query, \<open>score\<close> returns a
  number for the lower-cased query and every document of the corpus, and \<open>search\<close>
  returns the pairs of a document and this score for exactly the documents whose score
  is greater than zero, in the order of the documents in the corpus; it does not sort.
  The ranking by score is the loop of the benchmark script: when some document of the
  corpus has a token, every score of \<open>scoreDoc\<close> is a finite number, and the loop takes
  the pairs of index and score of all the documents, those of score zero included, sorts
  them by non-increasing score, equal scores in the order of the documents, and keeps
  the first ten.
\<close>

theorem search_hits_in_document_order:
  "(\<exists>sc. (\<forall>i < length ds.
             SparseEngineOpt_score (SparseEngineOpt_init SparseEngineOpt_new ds)
               (map toLowerCase query) i = Inr (sc i)) \<and>
          SparseEngineOpt_search (SparseEngineOpt_init SparseEngineOpt_new ds) query =
            Inr (map (\<lambda>i. (ds ! i, sc i)) (filter (\<lambda>i. js_gt (sc i) (Fin 0)) [0..<length ds]))) \<and>
   ((\<exists>d \<in> set ds. tokenize d \<noteq> []) \<longrightarrow>
    (\<exists>sc. (\<forall>i < length ds.
              SparseEngineBench_scoreDoc (SparseEngineBench_init SparseEngineBench_new ds) tokens i =
                Inr (Fin (sc i))) \<and>
          bench_ranked (SparseEngineBench_init SparseEngineBench_new ds) tokens =
            Inr (take 10 (map (\<lambda>i. (i, Fin (sc i))) (sort_key (\<lambda>i. - sc i) [0..<length ds])))))"
proof -
  let ?e = "SparseEngineOpt_init SparseEngineOpt_new ds"
  let ?q = "map toLowerCase query"
  have "\<forall>i. \<exists>s. i < length ds \<longrightarrow> SparseEngineOpt_score ?e ?q i = Inr s"
    using opt_score_returns [of _ ds ?q] by blast
  then have "\<exists>sc. \<forall>i. i < length ds \<longrightarrow> SparseEngineOpt_score ?e ?q i = Inr (sc i)"
    by (rule choice)
  then obtain sc where sc: "\<And>i. i < length ds \<Longrightarrow> SparseEngineOpt_score ?e ?q i = Inr (sc i)"
    by blast
  have "search_loop ?e ?q [0..<length ds] [] =
          Inr ([] @ map (\<lambda>i. (docs ?e ! i, sc i)) (filter (\<lambda>i. js_gt (sc i) (Fin 0)) [0..<length ds]))"
    by (rule search_loop_hits) (simp add: sc)
  then have "SparseEngineOpt_search ?e query =
          Inr (map (\<lambda>i. (ds ! i, sc i)) (filter (\<lambda>i. js_gt (sc i) (Fin 0)) [0..<length ds]))"
    by (simp add: SparseEngineOpt_search_def SparseEngineOpt_init_stats)
  then have 1: "\<exists>sc. (\<forall>i < length ds. SparseEngineOpt_score ?e ?q i = Inr (sc i)) \<and>
          SparseEngineOpt_search ?e query =
            Inr (map (\<lambda>i. (ds ! i, sc i)) (filter (\<lambda>i. js_gt (sc i) (Fin 0)) [0..<length ds]))"
    using sc by blast
  show ?thesis using 1 bench_ranked_sorted [of ds tokens] by blast
qed

theorem search_hits_in_document_order_witness:
  "(\<exists>d \<in> set [[(''city'', ''Cambridge'')], [(''city'', ''Boston'')]]. tokenize d \<noteq> []) \<and>
   (\<exists>sc. (\<forall>i < length [[(''city'', ''Cambridge'')], [(''city'', ''Boston'')]].
             SparseEngineOpt_score
               (SparseEngineOpt_init SparseEngineOpt_new [[(''city'', ''Cambridge'')], [(''city'', ''Boston'')]])
               (map toLowerCase [''boston'']) i = Inr (sc i)) \<and>
          SparseEngineOpt_search
            (SparseEngineOpt_init SparseEngineOpt_new [[(''city'', ''Cambridge'')], [(''city'', ''Boston'')]])
            [''boston''] =
            Inr (map (\<lambda>i. ([[(''city'', ''Cambridge'')], [(''city'', ''Boston'')]] ! i, sc i))
                     (filter (\<lambda>i. js_gt (sc i) (Fin 0))
                             [0..<length [[(''city'', ''Cambridge'')], [(''city'', ''Boston'')]]]))) \<and>
   (\<exists>sc. (\<forall>i < length [[(''city'', ''Cambridge'')], [(''city'', ''Boston'')]].
             SparseEngineBench_scoreDoc
               (SparseEngineBench_init SparseEngineBench_new [[(''city'', ''Cambridge'')], [(''city'', ''Boston'')]])
               [''boston''] i = Inr (Fin (sc i))) \<and>
         bench_ranked
           (SparseEngineBench_init SparseEngineBench_new [[(''city'', ''Cambridge'')], [(''city'', ''Boston'')]])
           [''boston''] =
           Inr (take 10 (map (\<lambda>i. (i, Fin (sc i)))
                  (sort_key (\<lambda>i. - sc i) [0..<length [[(''city'', ''Cambridge'')], [(''city'', ''Boston'')]]]))))"
proof -
  let ?ds = "[[(''city'', ''Cambridge'')], [(''city'', ''Boston'')]] :: document list"
  have h: "\<exists>d \<in> set ?ds. tokenize d \<noteq> []" by (simp add: tok_cambridge)
  show ?thesis
    using h search_hits_in_document_order [of ?ds "[''boston'']" "[''boston'']"] by blast
qed


subsection \<open>C6: average length and idf of a corpus\<close>

text \<open>
  C6 says that for every corpus with at least one document the average length is
  greater than zero. The corpus of one document that has none of the four fields has
  the average length \<open>0 / 1 = 0\<close>.
\<close>

theorem avgLen_zero_without_tokens:
  "length [[] :: document] = 1 \<and> avgLen (SparseEngine_init SparseEngine_new [[]]) = Fin 0"
  by (simp add: SparseEngine_init_def init_doc_def tok_empty js_of_nat_def js_Set_def)

text \<open>
  C6 as amended: for every corpus with at least one document, the average length is a
  finite number that is not negative, and it is greater than zero exactly when some
  document has a token; the idf of every term of the corpus is a finite number greater
  than zero. The engine of the demo and the engine with cached frequencies build the
  same values.
\<close>

theorem corpus_statistics_bounds:
  assumes "ds \<noteq> []"
  shows "\<exists>a. avgLen (SparseEngine_init SparseEngine_new ds) = Fin a \<and>
             avgLen (SparseEngineOpt_init SparseEngineOpt_new ds) = Fin a \<and>
             0 \<le> a \<and> (0 < a \<longleftrightarrow> (\<exists>d \<in> set ds. tokenize d \<noteq> [])) \<and>
             (\<forall>d \<in> set ds. \<forall>t \<in> set (tokenize d).
                \<exists>r. map_of (idf (SparseEngine_init SparseEngine_new ds)) t = Some (Fin r) \<and>
                    map_of (idf (SparseEngineOpt_init SparseEngineOpt_new ds)) t = Some (Fin r) \<and> 0 < r)"
proof -
  let ?a = "real (total_len ds) / real (length ds)"
  have n: "0 < real (length ds)" using assms by simp
  have 1: "avgLen (SparseEngine_init SparseEngine_new ds) = Fin ?a"
    using assms by (rule built_avgLen)
  have 2: "avgLen (SparseEngineOpt_init SparseEngineOpt_new ds) = Fin ?a"
    using 1 by (simp add: SparseEngineOpt_init_stats)
  have 3: "0 \<le> ?a" by simp
  have 4: "0 < ?a \<longleftrightarrow> (\<exists>d \<in> set ds. tokenize d \<noteq> [])"
    using n total_len_pos_iff [of ds] by (simp add: zero_less_divide_iff)
  have 5: "\<exists>r. map_of (idf (SparseEngine_init SparseEngine_new ds)) t = Some (Fin r) \<and>
               map_of (idf (SparseEngineOpt_init SparseEngineOpt_new ds)) t = Some (Fin r) \<and> 0 < r"
    if "d \<in> set ds" and "t \<in> set (tokenize d)" for d t
    using built_idf_token [OF that] by (simp add: SparseEngineOpt_init_stats)
  show ?thesis using 1 2 3 4 5 by blast
qed

theorem corpus_statistics_bounds_witness:
  "[[(''city'', ''Boston'')]] \<noteq> [] \<and>
   (\<exists>a. avgLen (SparseEngine_init SparseEngine_new [[(''city'', ''Boston'')]]) = Fin a \<and>
        avgLen (SparseEngineOpt_init SparseEngineOpt_new [[(''city'', ''Boston'')]]) = Fin a \<and>
        0 \<le> a \<and> (0 < a \<longleftrightarrow> (\<exists>d \<in> set [[(''city'', ''Boston'')]]. tokenize d \<noteq> [])) \<and>
        (\<forall>d \<in> set [[(''city'', ''Boston'')]]. \<forall>t \<in> set (tokenize d).
           \<exists>r. map_of (idf (SparseEngine_init SparseEngine_new [[(''city'', ''Boston'')]])) t = Some (Fin r) \<and>
               map_of (idf (SparseEngineOpt_init SparseEngineOpt_new [[(''city'', ''Boston'')]])) t = Some (Fin r) \<and>
               0 < r))"
proof -
  have h: "[[(''city'', ''Boston'')]] \<noteq> ([] :: document list)" by simp
  show ?thesis using h corpus_statistics_bounds [OF h] by (rule conjI)
qed


subsection \<open>C7: scores are not negative\<close>

text \<open>
  C7 says that the score of a query against an indexed document is at least zero, and
  zero when no token of the query is in the document. The scorer of the demo skips a
  token that the document does not hold; \<open>scoreDoc\<close> of the benchmark has no such
  test and divides the length of the document by the average length for every token.
  On the corpus of one document that has none of the four fields both lengths are zero,
  and the score of the query \<open>boston\<close> is \<open>NaN\<close>. The scorer of the demo meets the
  claim on every indexed document: that is lemma \<open>SparseEngine_score_nonneg\<close>.
\<close>

theorem scoreDoc_without_tokens_is_NaN:
  "SparseEngineBench_scoreDoc (SparseEngineBench_init SparseEngineBench_new [[]]) [''boston''] 0
   = Inr NaN"
  by (simp add: SparseEngineBench_scoreDoc_def SparseEngineBench_init_def SparseEngineBench_new_def
      bench_init_doc_def itok_empty set_idf_def js_of_nat_def term_freq_def get_or0_def
      bm25_term_def idf_or0_def js_sub_def)


subsection \<open>C8: idf decreases with the document frequency\<close>

text \<open>
  C8: for a corpus of \<open>N\<close> documents and two document frequencies
  \<open>1 \<le> df1 < df2 \<le> N\<close>, the formula
  \<open>ln((N - df + 0.5) / (df + 0.5) + 1)\<close> gives a finite idf to both, strictly
  greater for \<open>df1\<close>, and none of them is negative.
\<close>

theorem idf_strictly_decreasing:
  assumes "1 \<le> df1" and "df1 < df2" and "df2 \<le> N"
  shows "\<exists>r1 r2. idf_value N df1 = Fin r1 \<and> idf_value N df2 = Fin r2 \<and> r2 < r1 \<and> 0 \<le> r2"
proof -
  let ?r = "\<lambda>c. ln ((real N + 1) / (real c + 1 / 2))"
  have 1: "idf_value N df1 = Fin (?r df1)" using assms by (simp add: idf_value_eq)
  have 2: "idf_value N df2 = Fin (?r df2)" using assms by (simp add: idf_value_eq)
  have "(real N + 1) / (real df2 + 1 / 2) < (real N + 1) / (real df1 + 1 / 2)"
    using assms by (simp add: frac_less2)
  moreover have "0 < (real N + 1) / (real df2 + 1 / 2)" by (simp add: add_pos_pos)
  ultimately have lt: "?r df2 < ?r df1" by simp
  have "1 \<le> (real N + 1) / (real df2 + 1 / 2)" using assms by simp
  then have "0 \<le> ?r df2" by simp
  with 1 2 lt show ?thesis by blast
qed

theorem idf_strictly_decreasing_witness:
  "(1::nat) \<le> 1 \<and> (1::nat) < 2 \<and> (2::nat) \<le> 3 \<and>
   (\<exists>r1 r2. idf_value 3 1 = Fin r1 \<and> idf_value 3 2 = Fin r2 \<and> r2 < r1 \<and> 0 \<le> r2)"
  using idf_strictly_decreasing [of 1 2 3] by simp


subsection \<open>C9: the two scorers agree\<close>

text \<open>
  C9 says that on the same corpus, for every query and every index of a document, the
  scorer that reads the cached frequency map of the document and the scorer of the demo,
  which tokenizes the document again, return equal scores. The two compute the length
  of the document relative to the average, times \<open>b\<close>, in two orders: the demo as
  \<open>(b * len) / avgLen\<close>, the cached scorer as \<open>b * (len / avgLen)\<close>. On the reals
  these are one number, and so are the scores (lemma \<open>opt_score_eq\<close>); on doubles they
  are not. On the corpus of the two cities \<open>x x x x x x\<close> and \<open>y\<close>, with the average
  length \<open>3.5\<close>, and the query \<open>x\<close>, the first document has the score
  \<open>1.1666083694670117\<close> in the demo and \<open>1.166608369467012\<close>, one unit in the last
  place more, in the cached scorer.
\<close>

theorem scorers_differ_in_the_last_place:
  "SparseEngine_score_double
     (SparseEngine_init_double SparseEngine_new [[(''city'', ''x x x x x x'')], [(''city'', ''y'')]])
     [''x''] ([[(''city'', ''x x x x x x'')], [(''city'', ''y'')]] ! 0) =
     Fin (5253937018018936 / 4503599627370496) \<and>
   SparseEngineOpt_score_double
     (SparseEngineOpt_init_double SparseEngineOpt_new [[(''city'', ''x x x x x x'')], [(''city'', ''y'')]])
     [''x''] 0 =
     Inr (Fin (5253937018018937 / 4503599627370496)) \<and>
   SparseEngineOpt_score_double
     (SparseEngineOpt_init_double SparseEngineOpt_new [[(''city'', ''x x x x x x'')], [(''city'', ''y'')]])
     [''x''] 0 \<noteq>
   Inr (SparseEngine_score_double
          (SparseEngine_init_double SparseEngine_new [[(''city'', ''x x x x x x'')], [(''city'', ''y'')]])
          [''x''] ([[(''city'', ''x x x x x x'')], [(''city'', ''y'')]] ! 0))"
  by (simp add: double_demo_score double_cached_score)

text \<open>
  C9 as amended: on the same corpus, for every query and every index of a document, the
  two scorers return equal scores whenever the two orders give the same double for the
  length term of that document, \<open>0.75 * (len / avgLen) = (0.75 * len) / avgLen\<close>.
  Everything else they compute is the same: the statistics of the two engines, the
  frequencies read from the cache and counted again, and the length of the document as
  the sum of its frequencies. On the corpus above the second document is such a document.
\<close>

theorem scorers_agree_on_equal_length_terms:
  assumes "i < length ds"
    and "dbl_mul (Fin (3 / 4))
           (dbl_div (js_of_nat (length (tokenize (ds ! i))))
                    (avgLen (SparseEngine_init_double SparseEngine_new ds))) =
         dbl_div (dbl_mul (Fin (3 / 4)) (js_of_nat (length (tokenize (ds ! i)))))
                 (avgLen (SparseEngine_init_double SparseEngine_new ds))"
  shows "SparseEngineOpt_score_double (SparseEngineOpt_init_double SparseEngineOpt_new ds) qs i =
         Inr (SparseEngine_score_double (SparseEngine_init_double SparseEngine_new ds) qs (ds ! i))"
  using assms by (rule double_score_eq)

theorem scorers_agree_on_equal_length_terms_witness:
  "(1::nat) < length [[(''city'', ''x x x x x x'')], [(''city'', ''y'')]] \<and>
   dbl_mul (Fin (3 / 4))
     (dbl_div (js_of_nat (length (tokenize ([[(''city'', ''x x x x x x'')], [(''city'', ''y'')]] ! 1))))
              (avgLen (SparseEngine_init_double SparseEngine_new
                         [[(''city'', ''x x x x x x'')], [(''city'', ''y'')]]))) =
   dbl_div (dbl_mul (Fin (3 / 4))
              (js_of_nat (length (tokenize ([[(''city'', ''x x x x x x'')], [(''city'', ''y'')]] ! 1)))))
           (avgLen (SparseEngine_init_double SparseEngine_new
                      [[(''city'', ''x x x x x x'')], [(''city'', ''y'')]])) \<and>
   SparseEngineOpt_score_double
     (SparseEngineOpt_init_double SparseEngineOpt_new [[(''city'', ''x x x x x x'')], [(''city'', ''y'')]])
     [''y''] 1 =
   Inr (SparseEngine_score_double
          (SparseEngine_init_double SparseEngine_new [[(''city'', ''x x x x x x'')], [(''city'', ''y'')]])
          [''y''] ([[(''city'', ''x x x x x x'')], [(''city'', ''y'')]] ! 1))"
proof -
  let ?ds = "[[(''city'', ''x x x x x x'')], [(''city'', ''y'')]] :: document list"
  have h1: "(1::nat) < length ?ds" by simp
  have h2: "dbl_mul (Fin (3 / 4))
              (dbl_div (js_of_nat (length (tokenize (?ds ! 1))))
                       (avgLen (SparseEngine_init_double SparseEngine_new ?ds))) =
            dbl_div (dbl_mul (Fin (3 / 4)) (js_of_nat (length (tokenize (?ds ! 1)))))
                    (avgLen (SparseEngine_init_double SparseEngine_new ?ds))"
    unfolding double_demo_engine
    by (simp add: tok_y dbl_mul_def dbl_div_def js_round_def js_of_nat_def double_values)
  show ?thesis
    using h1 h2 scorers_agree_on_equal_length_terms [OF h1 h2, of "[''y'']"] by blast
qed


subsection \<open>C10: the counter after a run\<close>

text \<open>
  C10 says that the counter is zero at every barrier and after \<open>run\<close> ends, also when
  it ends by the failure of a unit. \<open>Promise.all\<close> rejects with the first rejection
  and the other units of the pulse are not awaited: on the dataset \<open>[1, 2]\<close>, with a
  function that throws on \<open>1\<close>, \<open>run\<close> has failed while the unit of \<open>2\<close> is in
  flight, and the counter is one.
\<close>

theorem failed_run_leaves_counter_positive:
  "map_option (\<lambda>s. (pc s, active s))
     (exec [1, 2] (\<lambda>x. if x = 1 then Inl ''boom'' else Inr (2 * x) :: string + int)
        [Main, Main, Main, Main, Settle 0]
        (run_start (PlexRuntime_constructor None None)))
   = Some (Failed ''boom'', 1)"
  unfolding run_first_unit_fails by simp

text \<open>
  C10 as amended: the counter goes up by one when a unit is launched and down by one when
  it settles, by success or by failure, so that at every moment of a run of a new
  runtime it is the number of units in flight that have not settled; it is zero at every
  barrier and after \<open>run\<close> has returned. After a run that a unit's failure ended, it
  is the number of the units still in flight.
\<close>

theorem counter_counts_units_in_flight:
  assumes "exec dataset fn evs (run_start (PlexRuntime_constructor ps mc)) = Some s"
  shows "active s = int (pending_count (inflight s)) \<and>
         ((\<exists>i. pc s = AtLoop i) \<or> pc s = Returned \<longrightarrow> active s = 0)"
proof -
  have "counted (run_start (PlexRuntime_constructor ps mc) :: ('a, 'b, 'c) run_state)"
    by (simp add: counted_def run_start_def PlexRuntime_constructor_def)
  from exec_counted [OF assms this] show ?thesis
    by (auto simp: counted_def at_barrier_def all_fulfilled_no_pending)
qed

theorem counter_counts_units_in_flight_witness:
  "\<exists>s. exec [10, 20] (\<lambda>x. Inr (2 * x) :: string + int)
          [Main, Main, Main, Main, Settle 1, Settle 0, Main]
          (run_start (PlexRuntime_constructor None None)) = Some s \<and>
       pc s = Returned \<and> active s = int (pending_count (inflight s)) \<and> active s = 0"
proof -
  obtain s :: "(int, string, int) run_state"
    where r: "exec [10, 20] (\<lambda>x. Inr (2 * x)) [Main, Main, Main, Main, Settle 1, Settle 0, Main]
                (run_start (PlexRuntime_constructor None None)) = Some s"
      and p: "pc s = Returned"
    using run_two_units_swapped by simp
  have "active s = int (pending_count (inflight s)) \<and>
        ((\<exists>i. pc s = AtLoop i) \<or> pc s = Returned \<longrightarrow> active s = 0)"
    using r by (rule counter_counts_units_in_flight)
  then show ?thesis using r p by blast
qed

end
